theory Spec2Isabelle
  imports Complex_Main "HOL-Library.Multiset"
begin

section \<open>Conventions of the embedding\<close>

text \<open>
  The two scripts under verification are
  \<^verbatim>\<open>pl_uk_ip_piracy_report_detection.py\<close> (function \<^verbatim>\<open>model_one\<close>) and
  \<^verbatim>\<open>pl_uk_ip_piracy_report_traffic.py\<close> (function \<^verbatim>\<open>construct_output_df\<close>).

  \<^item> A pandas float is a \<^typ>\<open>real\<close>; a float cell that may be NaN is a \<^typ>\<open>real option\<close>
    with \<open>None\<close> for NaN. Rounding of binary floating point is not modelled.
  \<^item> A DataFrame column is a list, in row order; a frame of the detection script is a list of
    columns \<open>(ip, series)\<close> in column order.
  \<^item> Endpoint identifiers and bucket labels are any linearly ordered type (pandas orders
    pivot labels and group keys).
  \<^item> A Python exception is a value \<open>Inl e\<close> of a sum type.
  \<^item> \<^verbatim>\<open>sort_values\<close> is called with the default \<^verbatim>\<open>kind='quicksort'\<close>, for which pandas
    promises no order among equal keys. The sorting step is therefore a parameter \<open>srt\<close> of
    the functions that sort, and theorems state what they need of it.
\<close>

datatype error = ValueError

section \<open>Detection script: the window selector\<close>

subsection \<open>Python's \<^verbatim>\<open>int(str)\<close> on strings of code points below 256\<close>

definition is_digit :: "char \<Rightarrow> bool" where
  "is_digit c = (48 \<le> (of_char c :: nat) \<and> (of_char c :: nat) \<le> 57)"

definition digit_val :: "char \<Rightarrow> nat" where
  "digit_val c = of_char c - 48"

text \<open>
  The whitespace that \<^verbatim>\<open>int\<close> strips, for code points below 256: codes 9 to 13, the space 32,
  and the two Latin-1 spaces 133 and 160. The separators 28 to 31 are not stripped.
\<close>

definition is_space :: "char \<Rightarrow> bool" where
  "is_space c = ((9 \<le> (of_char c :: nat) \<and> (of_char c :: nat) \<le> 13)
               \<or> (of_char c :: nat) = 32 \<or> (of_char c :: nat) = 133
               \<or> (of_char c :: nat) = 160)"

text \<open>Digits after the first one; a single underscore may stand between two digits.\<close>

fun int_digits :: "nat \<Rightarrow> string \<Rightarrow> nat option" where
  "int_digits a [] = Some a"
| "int_digits a [c] = (if is_digit c then Some (10 * a + digit_val c) else None)"
| "int_digits a (c # d # ds) =
     (if is_digit c then int_digits (10 * a + digit_val c) (d # ds)
      else if c = CHR ''_'' \<and> is_digit d then int_digits (10 * a + digit_val d) ds
      else None)"

definition strip :: "string \<Rightarrow> string" where
  "strip s = rev (dropWhile is_space (rev (dropWhile is_space s)))"

definition unsigned_int :: "string \<Rightarrow> error + nat" where
  "unsigned_int u =
     (case u of
        [] \<Rightarrow> Inl ValueError
      | c # cs \<Rightarrow>
          if is_digit c
          then (case int_digits (digit_val c) cs of
                  None \<Rightarrow> Inl ValueError
                | Some n \<Rightarrow> Inr n)
          else Inl ValueError)"

definition py_int :: "string \<Rightarrow> error + int" where
  "py_int s =
     (case strip s of
        [] \<Rightarrow> Inl ValueError
      | c # cs \<Rightarrow>
          if c = CHR ''-'' then
            (case unsigned_int cs of Inl e \<Rightarrow> Inl e | Inr n \<Rightarrow> Inr (- int n))
          else if c = CHR ''+'' then
            (case unsigned_int cs of Inl e \<Rightarrow> Inl e | Inr n \<Rightarrow> Inr (int n))
          else
            (case unsigned_int (c # cs) of Inl e \<Rightarrow> Inl e | Inr n \<Rightarrow> Inr (int n)))"

text \<open>\<^verbatim>\<open>int(x)\<close> on a float truncates towards zero.\<close>

definition py_trunc :: "real \<Rightarrow> int" where
  "py_trunc x = (if 0 \<le> x then \<lfloor>x\<rfloor> else \<lceil>x\<rceil>)"

subsection \<open>\<^verbatim>\<open>s_idx\<close> and \<^verbatim>\<open>e_idx\<close> (lines 95 and 96)\<close>

text \<open>
  \<^verbatim>\<open>12 * int(ko[0:2]) + int(ko[3:5]) / 5 - 6\<close>: the division is Python 3 true division, so
  both indices are floats. The hour is parsed before the minute.
\<close>

definition ko_base :: "string \<Rightarrow> error + real" where
  "ko_base ko =
     (case py_int (take 2 ko) of
        Inl e \<Rightarrow> Inl e
      | Inr hh \<Rightarrow>
          (case py_int (take 2 (drop 3 ko)) of
             Inl e \<Rightarrow> Inl e
           | Inr mm \<Rightarrow> Inr (12 * real_of_int hh + real_of_int mm / 5)))"

definition s_idx :: "string \<Rightarrow> error + real" where
  "s_idx ko = (case ko_base ko of Inl e \<Rightarrow> Inl e | Inr b \<Rightarrow> Inr (b - 6))"

definition e_idx :: "string \<Rightarrow> error + real" where
  "e_idx ko = (case ko_base ko of Inl e \<Rightarrow> Inl e | Inr b \<Rightarrow> Inr (b + 21))"

text \<open>The first loop of \<^verbatim>\<open>model_one\<close>: the flat list \<^verbatim>\<open>[s0, e0, s1, e1, ...]\<close>.\<close>

fun match_times_idx :: "string list \<Rightarrow> error + real list" where
  "match_times_idx [] = Inr []"
| "match_times_idx (ko # kos) =
     (case s_idx ko of
        Inl e \<Rightarrow> Inl e
      | Inr s \<Rightarrow>
          (case e_idx ko of
             Inl e \<Rightarrow> Inl e
           | Inr e \<Rightarrow>
               (case match_times_idx kos of
                  Inl err \<Rightarrow> Inl err
                | Inr rest \<Rightarrow> Inr (s # e # rest))))"

text \<open>The value of two decimal digits, for stating what a kickoff string \<open>HH:MM\<close> denotes.\<close>

definition two_digits :: "char \<Rightarrow> char \<Rightarrow> nat" where
  "two_digits a b = 10 * digit_val a + digit_val b"

section \<open>Detection script: normalising, smoothing, differencing\<close>

text \<open>
  A row of \<^verbatim>\<open>ip_traffic\<close> after the projection to \<^verbatim>\<open>['bf_time', 'ip', 'gbps']\<close> (line 75).
  The three columns are never null.
\<close>

record ('t, 'ip) ip_traffic_row =
  bf_time :: 't
  ip :: 'ip
  gbps :: real

subsection \<open>\<^verbatim>\<open>pd.pivot_table(..., index=['bf_time'], columns=['ip'], aggfunc=np.sum)\<close> (line 76)\<close>

text \<open>
  Row and column labels are the distinct values, in ascending order. A cell with no sample is
  NaN, a cell with samples is their sum.
\<close>

definition pivot_index :: "('t::linorder, 'ip) ip_traffic_row list \<Rightarrow> 't list" where
  "pivot_index rows = sort (remdups (map bf_time rows))"

definition pivot_columns :: "('t, 'ip::linorder) ip_traffic_row list \<Rightarrow> 'ip list" where
  "pivot_columns rows = sort (remdups (map ip rows))"

definition pivot_cell :: "('t, 'ip) ip_traffic_row list \<Rightarrow> 't \<Rightarrow> 'ip \<Rightarrow> real option" where
  "pivot_cell rows t i =
     (case filter (\<lambda>r. bf_time r = t \<and> ip r = i) rows of
        [] \<Rightarrow> None
      | g # gs \<Rightarrow> Some (sum_list (map gbps (g # gs))))"

definition ip_pivot ::
  "('t::linorder, 'ip::linorder) ip_traffic_row list \<Rightarrow> ('ip \<times> real option list) list" where
  "ip_pivot rows =
     map (\<lambda>i. (i, map (\<lambda>t. pivot_cell rows t i) (pivot_index rows))) (pivot_columns rows)"

subsection \<open>The top-talker filter and \<^verbatim>\<open>fillna(0)\<close> (lines 79 and 80)\<close>

text \<open>\<^verbatim>\<open>ip_pivot.max()\<close> skips NaN; the maximum of a column without any value is NaN.\<close>

definition col_max :: "real option list \<Rightarrow> real option" where
  "col_max col =
     (case List.map_filter (\<lambda>v. v) col of
        [] \<Rightarrow> None
      | v # vs \<Rightarrow> Some (fold max vs v))"

definition is_top_talker :: "real option list \<Rightarrow> bool" where
  "is_top_talker col = (case col_max col of None \<Rightarrow> False | Some m \<Rightarrow> m > 2 / 100)"

definition top_talkers :: "('ip \<times> real option list) list \<Rightarrow> ('ip \<times> real option list) list" where
  "top_talkers frame = filter (\<lambda>(i, col). is_top_talker col) frame"

definition fillna0 :: "real option list \<Rightarrow> real list" where
  "fillna0 col = map (\<lambda>v. case v of None \<Rightarrow> 0 | Some x \<Rightarrow> x) col"

subsection \<open>\<^verbatim>\<open>preprocessing.minmax_scale\<close> (line 85)\<close>

text \<open>
  scikit-learn scales every column on its own. With \<^verbatim>\<open>data_range = data_max - data_min\<close> it
  sets \<^verbatim>\<open>scale_ = 1 / _handle_zeros_in_scale(data_range)\<close> and
  \<^verbatim>\<open>min_ = 0 - data_min * scale_\<close>, and returns \<^verbatim>\<open>X * scale_ + min_\<close>. It raises
  \<^verbatim>\<open>ValueError\<close> on an array with no row or no column. The minimum and maximum of an empty
  column are never taken; they are 0 here.

  \<^verbatim>\<open>_handle_zeros_in_scale\<close> replaces a range by 1 when it is 0; later versions of the library
  replace every range below \<^verbatim>\<open>10 * eps\<close>. The bound is the parameter \<open>thr\<close>: 0 for the first
  rule, \<open>10 / 2 ^ 52\<close> for the second.
\<close>

fun data_min :: "real list \<Rightarrow> real" where
  "data_min [] = 0"
| "data_min (x # xs) = fold min xs x"

fun data_max :: "real list \<Rightarrow> real" where
  "data_max [] = 0"
| "data_max (x # xs) = fold max xs x"

definition handle_zeros_in_scale :: "real \<Rightarrow> real \<Rightarrow> real" where
  "handle_zeros_in_scale thr r = (if r = 0 \<or> r < thr then 1 else r)"



text \<open>
  The scaling in exact arithmetic, which the rest of the model works with, as it does for
  every other float operation.
\<close>

definition minmax_column :: "real list \<Rightarrow> real list" where
  "minmax_column xs =
     (let scale = 1 / handle_zeros_in_scale 0 (data_max xs - data_min xs);
          shift_min = 0 - data_min xs * scale
      in map (\<lambda>x. x * scale + shift_min) xs)"

text \<open>
  What the results below ask of a rounding: it keeps 0, commutes with the sign, returns
  its own results unchanged and keeps the order. Rounding to the nearest double is one.
\<close>

definition is_rounding :: "(real \<Rightarrow> real) \<Rightarrow> bool" where
  "is_rounding rnd =
     (rnd 0 = 0 \<and> (\<forall>x. rnd (- x) = - rnd x) \<and> (\<forall>x. rnd (rnd x) = rnd x)
      \<and> (\<forall>x y. x \<le> y \<longrightarrow> rnd x \<le> rnd y))"






definition minmax_scale :: "('ip \<times> real list) list \<Rightarrow> error + ('ip \<times> real list) list" where
  "minmax_scale frame =
     (if frame = [] \<or> list_ex (\<lambda>(i, col). col = []) frame then Inl ValueError
      else Inr (map (\<lambda>(i, col). (i, minmax_column col)) frame))"

definition ips_normalized ::
  "('t::linorder, 'ip::linorder) ip_traffic_row list \<Rightarrow> error + ('ip \<times> real list) list" where
  "ips_normalized rows =
     minmax_scale (map (\<lambda>(i, col). (i, fillna0 col)) (top_talkers (ip_pivot rows)))"



subsection \<open>\<^verbatim>\<open>rolling(window=8).mean().shift(periods=-4)\<close> and \<^verbatim>\<open>diff(periods=4)\<close> (lines 90, 91)\<close>

text \<open>
  The \<^verbatim>\<open>groupby(index).mean()\<close> in front of the rolling mean changes nothing: the index of the
  pivot holds every label once, in ascending order. A rolling mean needs \<open>w\<close> observations
  (\<^verbatim>\<open>min_periods\<close> defaults to the window), so the first \<open>w - 1\<close> positions are NaN.
\<close>

definition rolling_mean :: "nat \<Rightarrow> real list \<Rightarrow> real option list" where
  "rolling_mean w xs =
     map (\<lambda>i. if w \<le> i + 1 then Some (sum_list (take w (drop (i + 1 - w) xs)) / real w)
              else None)
       [0..<length xs]"

text \<open>\<^verbatim>\<open>shift(periods)\<close>: position \<open>i\<close> receives the value at \<open>i - periods\<close>, NaN outside the series.\<close>

definition shift :: "int \<Rightarrow> 'a option list \<Rightarrow> 'a option list" where
  "shift periods xs =
     map (\<lambda>i. if 0 \<le> int i - periods \<and> int i - periods < int (length xs)
              then xs ! nat (int i - periods) else None)
       [0..<length xs]"

fun sub_nan :: "real option \<Rightarrow> real option \<Rightarrow> real option" where
  "sub_nan (Some a) (Some b) = Some (a - b)"
| "sub_nan _ _ = None"

definition diff :: "nat \<Rightarrow> real option list \<Rightarrow> real option list" where
  "diff periods xs = map2 sub_nan xs (shift (int periods) xs)"

definition ips_smoothed :: "real list \<Rightarrow> real option list" where
  "ips_smoothed xs = shift (- 4) (rolling_mean 8 xs)"

definition ips_d :: "real list \<Rightarrow> real option list" where
  "ips_d xs = diff 4 (ips_smoothed xs)"

section \<open>Detection script: the candidate detector (lines 101 to 106)\<close>

text \<open>
  \<^verbatim>\<open>ips_d[int(s):int(e)]\<close> slices the frame by row position (its index holds the \<^verbatim>\<open>bf_time\<close>
  labels, not integers), with Python's rules: a negative bound counts from the end, and bounds
  are clamped to the frame.
\<close>

definition slice_bound :: "int \<Rightarrow> nat \<Rightarrow> nat" where
  "slice_bound k n = (if k < 0 then nat (max (k + int n) 0) else nat (min k (int n)))"

definition py_slice :: "int \<Rightarrow> int \<Rightarrow> 'a list \<Rightarrow> 'a list" where
  "py_slice start stop xs =
     take (slice_bound stop (length xs) - slice_bound start (length xs))
       (drop (slice_bound start (length xs)) xs)"

text \<open>\<^verbatim>\<open>> .1\<close> on a NaN cell is \<^verbatim>\<open>False\<close>.\<close>

definition exceeds :: "real option \<Rightarrow> bool" where
  "exceeds v = (case v of None \<Rightarrow> False | Some x \<Rightarrow> x > 1 / 10)"

definition exceed_count :: "real \<Rightarrow> real \<Rightarrow> real option list \<Rightarrow> nat" where
  "exceed_count s e d = length (filter exceeds (py_slice (py_trunc s) (py_trunc e) d))"

definition exceed_counts ::
  "real \<Rightarrow> real \<Rightarrow> ('ip \<times> real option list) list \<Rightarrow> ('ip \<times> nat) list" where
  "exceed_counts s e frame = map (\<lambda>(i, d). (i, exceed_count s e d)) frame"

text \<open>
  Line 105 keeps the counts above 10 and sorts them with \<^verbatim>\<open>sort_values(ascending=False)\<close>,
  here \<open>srt\<close>; line 106 keeps the endpoints.
\<close>

definition ranked_counts ::
  "(('ip \<times> nat) list \<Rightarrow> ('ip \<times> nat) list) \<Rightarrow> real \<Rightarrow> real
     \<Rightarrow> ('ip \<times> real option list) list \<Rightarrow> ('ip \<times> nat) list" where
  "ranked_counts srt s e frame = srt (filter (\<lambda>(i, c). c > 10) (exceed_counts s e frame))"

definition ip_pirate_list ::
  "(('ip \<times> nat) list \<Rightarrow> ('ip \<times> nat) list) \<Rightarrow> real \<Rightarrow> real
     \<Rightarrow> ('ip \<times> real option list) list \<Rightarrow> 'ip list" where
  "ip_pirate_list srt s e frame = map fst (ranked_counts srt s e frame)"

text \<open>
  The second loop reads \<^verbatim>\<open>match_times_idx[count]\<close> and \<^verbatim>\<open>match_times_idx[count + 1]\<close> with
  \<^verbatim>\<open>count\<close> going up by 2: one list of candidates for every pair of the flat list.
\<close>

fun detect_all ::
  "(('ip \<times> nat) list \<Rightarrow> ('ip \<times> nat) list) \<Rightarrow> real list
     \<Rightarrow> ('ip \<times> real option list) list \<Rightarrow> 'ip list list" where
  "detect_all srt (s # e # rest) frame = ip_pirate_list srt s e frame # detect_all srt rest frame"
| "detect_all srt _ frame = []"

text \<open>
  \<^verbatim>\<open>model_one\<close> from the traffic rows and the kickoff strings \<^verbatim>\<open>pl_games[match_date]\<close> of the
  day, which are taken as given, to the candidates of every match, in the order in which the
  function writes them to a file each. The frame is normalised before any kickoff string is
  parsed, so an empty frame raises first.
\<close>

definition model_one ::
  "(('ip \<times> nat) list \<Rightarrow> ('ip \<times> nat) list) \<Rightarrow> ('t::linorder, 'ip::linorder) ip_traffic_row list
     \<Rightarrow> string list \<Rightarrow> error + 'ip list list" where
  "model_one srt ip_traffic ko_times =
     (case ips_normalized ip_traffic of
        Inl e \<Rightarrow> Inl e
      | Inr normed \<Rightarrow>
          (case match_times_idx ko_times of
             Inl e \<Rightarrow> Inl e
           | Inr idx \<Rightarrow> Inr (detect_all srt idx (map (\<lambda>(i, col). (i, ips_d col)) normed))))"

subsection \<open>Two sorts that pandas has shipped for \<^verbatim>\<open>Series.sort_values(ascending=False)\<close>\<close>

text \<open>
  On a short series numpy's quicksort is an insertion sort, which keeps equal keys in their
  order. pandas 1.2 and later reverse the series, sort it ascending and reverse the result;
  earlier versions sort ascending and reverse the result.
\<close>

definition sort_desc_stable :: "('ip \<times> nat) list \<Rightarrow> ('ip \<times> nat) list" where
  "sort_desc_stable xs = rev (sort_key snd (rev xs))"




section \<open>Traffic script: \<^verbatim>\<open>construct_output_df\<close>\<close>

text \<open>
  A row of \<^verbatim>\<open>input_ip_traffic_df\<close>. Timestamps count microseconds; \<^verbatim>\<open>ip\<close> and
  \<^verbatim>\<open>timestamp\<close> are the grouping keys and are never null; every other column may be null.
\<close>

record 'ip input_row =
  in_timestamp :: int
  in_ip :: 'ip
  in_asn :: "int option"
  in_as_name :: "string option"
  in_analyse :: "bool option"
  in_vpn :: "bool option"
  in_vpn_name :: "string option"
  in_gigabits :: "real option"

definition minutes :: "int \<Rightarrow> int" where
  "minutes m = m * 60000000"

subsection \<open>\<^verbatim>\<open>base_df\<close> (lines 211 to 219)\<close>

text \<open>
  \<^verbatim>\<open>sort_values('asn', na_position='first')\<close> puts the rows with a null \<^verbatim>\<open>asn\<close> first, in
  their order, and the sorted rows with an \<^verbatim>\<open>asn\<close> after them; \<open>srt\<close> sorts the latter.
\<close>

definition sort_values_asn ::
  "('ip input_row list \<Rightarrow> 'ip input_row list) \<Rightarrow> 'ip input_row list \<Rightarrow> 'ip input_row list" where
  "sort_values_asn srt rows =
     filter (\<lambda>r. in_asn r = None) rows @ srt (filter (\<lambda>r. in_asn r \<noteq> None) rows)"

text \<open>\<^verbatim>\<open>drop_duplicates(subset=['ip'], keep='last')\<close>: a row goes when a later row has its \<^verbatim>\<open>ip\<close>.\<close>

fun drop_duplicates_last :: "'ip input_row list \<Rightarrow> 'ip input_row list" where
  "drop_duplicates_last [] = []"
| "drop_duplicates_last (r # rs) =
     (if in_ip r \<in> set (map in_ip rs) then drop_duplicates_last rs
      else r # drop_duplicates_last rs)"

record 'ip base_row =
  b_ip :: 'ip
  b_asn :: "int option"
  b_as_name :: "string option"
  b_analyse :: "bool option"
  b_vpn :: "bool option"
  b_vpn_name :: "string option"
  b_season :: string
  b_game_week :: int
  b_ko_timestamp :: int

definition base_df ::
  "('ip input_row list \<Rightarrow> 'ip input_row list) \<Rightarrow> int \<Rightarrow> string \<Rightarrow> int \<Rightarrow> 'ip input_row list
     \<Rightarrow> 'ip base_row list" where
  "base_df srt ko_timestamp season gw rows =
     map (\<lambda>r. \<lparr>b_ip = in_ip r, b_asn = in_asn r, b_as_name = in_as_name r,
               b_analyse = in_analyse r, b_vpn = in_vpn r, b_vpn_name = in_vpn_name r,
               b_season = season, b_game_week = gw, b_ko_timestamp = ko_timestamp\<rparr>)
       (drop_duplicates_last (sort_values_asn srt rows))"

text \<open>The ascending sort by \<^verbatim>\<open>asn\<close> that keeps ties in order, and what is asked of any such sort.\<close>

definition asn_key :: "'ip input_row \<Rightarrow> int" where
  "asn_key r = (case in_asn r of None \<Rightarrow> 0 | Some a \<Rightarrow> a)"

definition sort_asn_stable :: "'ip input_row list \<Rightarrow> 'ip input_row list" where
  "sort_asn_stable rows = sort_key asn_key rows"

definition sorts_by_asn :: "('ip input_row list \<Rightarrow> 'ip input_row list) \<Rightarrow> bool" where
  "sorts_by_asn srt = (\<forall>xs. mset (srt xs) = mset xs \<and> sorted (map asn_key (srt xs)))"

subsection \<open>\<^verbatim>\<open>clean_ip_traffic_df\<close> (lines 229 to 233)\<close>

text \<open>
  \<^verbatim>\<open>groupby(['ip', 'timestamp']).sum().reset_index()\<close>: one row for every pair that occurs, in
  ascending order of \<^verbatim>\<open>ip\<close>, then of \<^verbatim>\<open>timestamp\<close>. The sum skips null values.
\<close>

record 'ip clean_row =
  c_ip :: 'ip
  c_timestamp :: int
  c_gigabits :: real

definition gigabits_or_0 :: "'ip input_row \<Rightarrow> real" where
  "gigabits_or_0 r = (case in_gigabits r of None \<Rightarrow> 0 | Some g \<Rightarrow> g)"

definition clean_ip_traffic_df :: "'ip::linorder input_row list \<Rightarrow> 'ip clean_row list" where
  "clean_ip_traffic_df rows =
     concat
       (map (\<lambda>i. map (\<lambda>t. \<lparr>c_ip = i, c_timestamp = t,
                            c_gigabits =
                              sum_list (map gigabits_or_0
                                (filter (\<lambda>r. in_ip r = i \<and> in_timestamp r = t) rows))\<rparr>)
                   (sort (remdups (map in_timestamp (filter (\<lambda>r. in_ip r = i) rows)))))
          (sort (remdups (map in_ip rows))))"

subsection \<open>\<^verbatim>\<open>noise_df\<close> (lines 239 to 251)\<close>

definition in_noise_window :: "int \<Rightarrow> int \<Rightarrow> bool" where
  "in_noise_window ko_timestamp t =
     (ko_timestamp + minutes (- 90) \<le> t \<and> t < ko_timestamp + minutes (- 30))"

definition noise_df :: "int \<Rightarrow> 'ip::linorder input_row list \<Rightarrow> ('ip \<times> real) list" where
  "noise_df ko_timestamp rows =
     map (\<lambda>i. (i, sum_list (map c_gigabits
                   (filter (\<lambda>c. c_ip c = i)
                      (filter (\<lambda>c. in_noise_window ko_timestamp (c_timestamp c))
                         (clean_ip_traffic_df rows)))) / 12))
       (sort (remdups (map c_ip
          (filter (\<lambda>c. in_noise_window ko_timestamp (c_timestamp c))
             (clean_ip_traffic_df rows)))))"

subsection \<open>\<^verbatim>\<open>processed_ip_traffic_df\<close> (lines 254 to 279)\<close>

definition in_match_window :: "int \<Rightarrow> int \<Rightarrow> bool" where
  "in_match_window ko_timestamp t = (ko_timestamp \<le> t \<and> t < ko_timestamp + minutes 110)"

text \<open>\<^verbatim>\<open>merge(noise_df, how='left', on='ip')\<close> followed by \<^verbatim>\<open>fillna(value={'noise_gigabits': 0})\<close>.\<close>

definition noise_gigabits :: "('ip \<times> real) list \<Rightarrow> 'ip \<Rightarrow> real" where
  "noise_gigabits noise i = (case map_of noise i of None \<Rightarrow> 0 | Some n \<Rightarrow> n)"

record 'ip processed_row =
  p_ip :: 'ip
  p_timestamp :: int
  p_gigabits :: real
  p_noise_gigabits :: real
  p_piracy_gigabits :: real
  p_gbps :: real
  p_piracy_gbps :: real

text \<open>\<^verbatim>\<open>clip(lower = 0)\<close> is the maximum with 0; \<^verbatim>\<open>div(300)\<close> divides by the 300 seconds.\<close>

definition process_row :: "('ip \<times> real) list \<Rightarrow> 'ip clean_row \<Rightarrow> 'ip processed_row" where
  "process_row noise c =
     \<lparr>p_ip = c_ip c, p_timestamp = c_timestamp c, p_gigabits = c_gigabits c,
      p_noise_gigabits = noise_gigabits noise (c_ip c),
      p_piracy_gigabits = max (c_gigabits c - noise_gigabits noise (c_ip c)) 0,
      p_gbps = c_gigabits c / 300,
      p_piracy_gbps = max (c_gigabits c - noise_gigabits noise (c_ip c)) 0 / 300\<rparr>"

definition processed_ip_traffic_df ::
  "int \<Rightarrow> 'ip::linorder input_row list \<Rightarrow> 'ip processed_row list" where
  "processed_ip_traffic_df ko_timestamp rows =
     map (process_row (noise_df ko_timestamp rows))
       (filter (\<lambda>c. in_match_window ko_timestamp (c_timestamp c)) (clean_ip_traffic_df rows))"

subsection \<open>\<^verbatim>\<open>output_ip_traffic_df\<close> (lines 283 to 288)\<close>

record 'ip output_row =
  o_ip :: 'ip
  o_asn :: "int option"
  o_as_name :: "string option"
  o_analyse :: "bool option"
  o_vpn :: "bool option"
  o_vpn_name :: "string option"
  o_season :: string
  o_game_week :: int
  o_ko_timestamp :: int
  o_timestamp :: int
  o_gigabits :: real
  o_piracy_gigabits :: real
  o_gbps :: real
  o_piracy_gbps :: real

definition join_rows :: "'ip base_row \<Rightarrow> 'ip processed_row \<Rightarrow> 'ip output_row" where
  "join_rows b p =
     \<lparr>o_ip = b_ip b, o_asn = b_asn b, o_as_name = b_as_name b, o_analyse = b_analyse b,
      o_vpn = b_vpn b, o_vpn_name = b_vpn_name b, o_season = b_season b,
      o_game_week = b_game_week b, o_ko_timestamp = b_ko_timestamp b,
      o_timestamp = p_timestamp p, o_gigabits = p_gigabits p,
      o_piracy_gigabits = p_piracy_gigabits p, o_gbps = p_gbps p,
      o_piracy_gbps = p_piracy_gbps p\<rparr>"

text \<open>
  \<^verbatim>\<open>base_df.merge(..., on='ip')\<close> is an inner join: a row for every pair of a base row and a
  traffic row with the same \<^verbatim>\<open>ip\<close>, and no row for an \<^verbatim>\<open>ip\<close> that one side lacks. It raises
  nothing. The theorems below read the result as a set of rows, not in its order.
\<close>

definition merge_on_ip :: "'ip base_row list \<Rightarrow> 'ip processed_row list \<Rightarrow> 'ip output_row list" where
  "merge_on_ip base traffic =
     concat (map (\<lambda>b. map (join_rows b) (filter (\<lambda>p. p_ip p = b_ip b) traffic)) base)"

definition construct_output_df ::
  "('ip input_row list \<Rightarrow> 'ip input_row list) \<Rightarrow> int \<Rightarrow> string \<Rightarrow> int
     \<Rightarrow> 'ip::linorder input_row list \<Rightarrow> 'ip output_row list" where
  "construct_output_df srt ko_timestamp season gw rows =
     merge_on_ip (base_df srt ko_timestamp season gw rows)
       (processed_ip_traffic_df ko_timestamp rows)"

subsection \<open>The raw sum that the noise baseline is compared with\<close>

text \<open>The gigabits of an endpoint's input rows whose timestamp lies in the pre-match window.\<close>

definition raw_noise_sum :: "int \<Rightarrow> 'ip input_row list \<Rightarrow> 'ip \<Rightarrow> real" where
  "raw_noise_sum ko rows i =
     sum_list (map gigabits_or_0
       (filter (\<lambda>r. in_ip r = i \<and> in_noise_window ko (in_timestamp r)) rows))"

section \<open>Example inputs\<close>

definition ex_ticks :: "nat list" where
  "ex_ticks = [0, 1, 2, 3, 4, 5, 6, 7, 8, 9, 10, 11, 12, 13, 14, 15, 16, 17, 18, 19, 20, 21]"

definition ex_ramp :: "nat \<Rightarrow> (nat, nat) ip_traffic_row list" where
  "ex_ramp i = map (\<lambda>t. \<lparr>bf_time = t, ip = i, gbps = real t\<rparr>) ex_ticks"

definition ex_ramp_normalized :: "real list" where
  "ex_ramp_normalized = map (\<lambda>t. real t / 21) ex_ticks"

definition ex_ramp_d :: "real option list" where
  "ex_ramp_d = replicate 7 None @ replicate 11 (Some (4 / 21)) @ replicate 4 None"

definition ex_short :: "(nat, nat) ip_traffic_row list" where
  "ex_short = [\<lparr>bf_time = 0, ip = 2, gbps = 1\<rparr>, \<lparr>bf_time = 1, ip = 2, gbps = 2\<rparr>,
               \<lparr>bf_time = 2, ip = 2, gbps = 3\<rparr>]"

definition ex_series :: "real list" where
  "ex_series = [0, 1, 2, 3, 4, 5, 6, 7, 8, 9, 10, 11]"

definition ex_window :: "real option list" where
  "ex_window = ex_ramp_d @ replicate 5 None @ [Some 1]"


definition ex_mixed :: "(nat, nat) ip_traffic_row list" where
  "ex_mixed =
     [\<lparr>bf_time = 1, ip = 2, gbps = 1 / 100\<rparr>, \<lparr>bf_time = 2, ip = 2, gbps = 2 / 100\<rparr>,
      \<lparr>bf_time = 1, ip = 3, gbps = 1\<rparr>, \<lparr>bf_time = 2, ip = 3, gbps = 3\<rparr>,
      \<lparr>bf_time = 1, ip = 4, gbps = 5\<rparr>, \<lparr>bf_time = 2, ip = 4, gbps = 5\<rparr>,
      \<lparr>bf_time = 2, ip = 5, gbps = 4\<rparr>]"

definition ex_row :: "int \<Rightarrow> nat \<Rightarrow> int option \<Rightarrow> string option \<Rightarrow> real \<Rightarrow> nat input_row" where
  "ex_row t i a n g =
     \<lparr>in_timestamp = minutes t, in_ip = i, in_asn = a, in_as_name = n, in_analyse = Some True,
      in_vpn = Some False, in_vpn_name = None, in_gigabits = Some g\<rparr>"

definition ex_attr :: "nat input_row list" where
  "ex_attr =
     [ex_row (- 60) 2 (Some 64500) (Some ''AS-TWO'') 24,
      ex_row 0 2 (Some 64500) (Some ''AS-TWO'') 5,
      ex_row 110 2 (Some 64500) (Some ''AS-TWO'') 7,
      ex_row (- 60) 3 None None 60,
      ex_row 5 3 None None 2]"

definition ex_quiet :: "nat input_row list" where
  "ex_quiet =
     [ex_row (- 90) 2 None None 10, ex_row (- 85) 2 None None 0, ex_row (- 80) 2 None None 0,
      ex_row (- 75) 2 None None 0, ex_row (- 70) 2 None None 0, ex_row (- 65) 2 None None 0,
      ex_row (- 60) 2 None None 0, ex_row (- 55) 2 None None 0, ex_row (- 50) 2 None None 0,
      ex_row (- 45) 2 None None 0, ex_row (- 40) 2 None None 0, ex_row (- 35) 2 None None 0,
      ex_row 0 2 None None 5,
      ex_row 0 3 None None 5,
      ex_row (- 60) 4 None None 6, ex_row (- 30) 4 None None 9, ex_row (- 35) 4 None None 6,
      ex_row 0 4 None None 5]"

definition ex_meta :: "nat input_row list" where
  "ex_meta =
     [ex_row 0 2 None (Some ''AS-TWO'') 1,
      ex_row 5 2 (Some 64500) None 1,
      ex_row 0 3 None None 1]"


section \<open>Properties of the window selector\<close>

lemma py_int_two_digits:
  assumes "is_digit a" "is_digit b"
  shows "py_int [a, b] = Inr (int (two_digits a b))"
proof -
  have na: "\<not> is_space a" "a \<noteq> CHR ''-''" "a \<noteq> CHR ''+''"
    using assms(1) by (auto simp: is_digit_def is_space_def)
  have nb: "\<not> is_space b"
    using assms(2) by (auto simp: is_digit_def is_space_def)
  have "strip [a, b] = [a, b]"
    using na nb by (simp add: strip_def)
  then show ?thesis
    using assms na by (simp add: py_int_def unsigned_int_def two_digits_def)
qed

lemma ko_base_hhmm:
  assumes "is_digit h1" "is_digit h2" "is_digit m1" "is_digit m2"
  shows "ko_base (h1 # h2 # c # m1 # m2 # rest)
           = Inr (12 * real (two_digits h1 h2) + real (two_digits m1 m2) / 5)"
  using assms by (simp add: ko_base_def py_int_two_digits)

text \<open>
  C3. For a kickoff string \<open>HH:MM...\<close> the window selector returns
  \<open>start_index = 12*HH + MM/5 - 6\<close> and \<open>end_index = 12*HH + MM/5 + 21\<close>, which counts
  5-minute buckets from midnight of the match day (\<open>(60*HH + MM)/5\<close> is the kickoff's bucket);
  when the minutes are a multiple of 5 both are the integers \<open>12*HH + MM div 5 - 6\<close> and
  \<open>12*HH + MM div 5 + 21\<close> that the later \<^verbatim>\<open>int(...)\<close> reads.
\<close>

theorem window_selector_formula:
  assumes "is_digit h1" "is_digit h2" "is_digit m1" "is_digit m2"
    and "5 dvd two_digits m1 m2"
  shows "s_idx (h1 # h2 # c # m1 # m2 # rest)
           = Inr (12 * real (two_digits h1 h2) + real (two_digits m1 m2) / 5 - 6)
       \<and> e_idx (h1 # h2 # c # m1 # m2 # rest)
           = Inr (12 * real (two_digits h1 h2) + real (two_digits m1 m2) / 5 + 21)
       \<and> 12 * real (two_digits h1 h2) + real (two_digits m1 m2) / 5
           = real (60 * two_digits h1 h2 + two_digits m1 m2) / 5
       \<and> py_trunc (12 * real (two_digits h1 h2) + real (two_digits m1 m2) / 5 - 6)
           = 12 * int (two_digits h1 h2) + int (two_digits m1 m2 div 5) - 6
       \<and> py_trunc (12 * real (two_digits h1 h2) + real (two_digits m1 m2) / 5 + 21)
           = 12 * int (two_digits h1 h2) + int (two_digits m1 m2 div 5) + 21
       \<and> match_times_idx [h1 # h2 # c # m1 # m2 # rest]
           = Inr [12 * real (two_digits h1 h2) + real (two_digits m1 m2) / 5 - 6,
                  12 * real (two_digits h1 h2) + real (two_digits m1 m2) / 5 + 21]"
proof -
  let ?H = "two_digits h1 h2" and ?M = "two_digits m1 m2"
  let ?ko = "h1 # h2 # c # m1 # m2 # rest"
  have base: "ko_base ?ko = Inr (12 * real ?H + real ?M / 5)"
    using assms(1-4) by (rule ko_base_hhmm)
  obtain q where q: "?M = 5 * q"
    using assms(5) by (auto elim: dvdE)
  have val: "12 * real ?H + real ?M / 5 = real_of_int (12 * int ?H + int q)"
    by (simp add: q)
  have s: "py_trunc (12 * real ?H + real ?M / 5 - 6) = 12 * int ?H + int (?M div 5) - 6"
  proof -
    have "12 * real ?H + real ?M / 5 - 6 = real_of_int (12 * int ?H + int q - 6)"
      by (simp add: q)
    then have "py_trunc (12 * real ?H + real ?M / 5 - 6) = 12 * int ?H + int q - 6"
      unfolding py_trunc_def by (simp only: floor_of_int ceiling_of_int if_cancel)
    then show ?thesis by (simp add: q)
  qed
  have e: "py_trunc (12 * real ?H + real ?M / 5 + 21) = 12 * int ?H + int (?M div 5) + 21"
  proof -
    have "12 * real ?H + real ?M / 5 + 21 = real_of_int (12 * int ?H + int q + 21)"
      by (simp add: q)
    then have "py_trunc (12 * real ?H + real ?M / 5 + 21) = 12 * int ?H + int q + 21"
      unfolding py_trunc_def by (simp only: floor_of_int ceiling_of_int if_cancel)
    then show ?thesis by (simp add: q)
  qed
  show ?thesis
    using base s e by (simp add: s_idx_def e_idx_def)
qed

theorem window_selector_formula_witness:
  "s_idx ''15:00:00'' = Inr 174 \<and> e_idx ''15:00:00'' = Inr 201
   \<and> py_trunc 174 = 174 \<and> py_trunc 201 = 201
   \<and> match_times_idx [''15:00:00''] = Inr [174, 201]
   \<and> s_idx ''20:30'' = Inr 240 \<and> e_idx ''20:30'' = Inr 267
   \<and> match_times_idx [''20:30''] = Inr [240, 267]"
proof -
  have d: "is_digit CHR ''0''" "is_digit CHR ''1''" "is_digit CHR ''2''"
    "is_digit CHR ''3''" "is_digit CHR ''5''"
    by (simp_all add: is_digit_def)
  have v: "two_digits CHR ''1'' CHR ''5'' = 15" "two_digits CHR ''0'' CHR ''0'' = 0"
    "two_digits CHR ''2'' CHR ''0'' = 20" "two_digits CHR ''3'' CHR ''0'' = 30"
    by (simp_all add: two_digits_def digit_val_def)
  have a: "5 dvd two_digits CHR ''0'' CHR ''0''" "5 dvd two_digits CHR ''3'' CHR ''0''"
    by (simp_all add: v)
  note w1 = window_selector_formula
    [OF d(2) d(5) d(1) d(1) a(1), of "CHR '':''" "'':00''"]
  note w2 = window_selector_formula
    [OF d(3) d(1) d(4) d(1) a(2), of "CHR '':''" "[]"]
  have t: "py_trunc 174 = 174" "py_trunc 201 = 201"
    by (simp_all add: py_trunc_def)
  show ?thesis
    using w1 w2 t by (simp add: v)
qed

section \<open>Properties of smoothing and differencing\<close>

lemma sum_list_take_drop:
  fixes xs :: "real list"
  assumes "m + n \<le> length xs"
  shows "sum_list (take n (drop m xs)) = (\<Sum>k = m..<m + n. xs ! k)"
proof -
  have "sum_list (take n (drop m xs)) = (\<Sum>j = 0..<n. take n (drop m xs) ! j)"
    using assms by (simp add: sum_list_sum_nth)
  also have "\<dots> = (\<Sum>j = 0..<n. xs ! (m + j))"
    using assms by (intro sum.cong) auto
  also have "\<dots> = (\<Sum>k = m..<m + n. xs ! k)"
    using sum.shift_bounds_nat_ivl [of "\<lambda>k. xs ! k" 0 m n] by (simp add: add.commute)
  finally show ?thesis .
qed

lemma length_rolling_mean: "length (rolling_mean w xs) = length xs"
  by (simp add: rolling_mean_def)

lemma length_shift: "length (shift p xs) = length xs"
  by (simp add: shift_def)

lemma length_ips_smoothed: "length (ips_smoothed xs) = length xs"
  by (simp add: ips_smoothed_def length_shift length_rolling_mean)

lemma length_ips_d: "length (ips_d xs) = length xs"
  by (simp add: ips_d_def diff_def length_shift length_ips_smoothed)

lemma rolling_mean_8_nth:
  assumes "i < length xs"
  shows "rolling_mean 8 xs ! i
           = (if 7 \<le> i then Some ((\<Sum>k = i - 7..i. xs ! k) / 8) else None)"
proof (cases "7 \<le> i")
  case True
  have "sum_list (take 8 (drop (i - 7) xs)) = (\<Sum>k \<in> {i - 7..<i - 7 + 8}. xs ! k)"
    using assms True by (intro sum_list_take_drop) simp
  also have "{i - 7..<i - 7 + 8} = {i - 7..i}"
    using True by auto
  finally have eq: "sum_list (take 8 (drop (i - 7) xs)) = (\<Sum>k = i - 7..i. xs ! k)" .
  show ?thesis
    using assms True by (simp add: rolling_mean_def eq)
next
  case False
  then show ?thesis using assms by (simp add: rolling_mean_def)
qed

lemma shift_nth:
  assumes "i < length xs"
  shows "shift p xs ! i
           = (if 0 \<le> int i - p \<and> int i - p < int (length xs) then xs ! nat (int i - p) else None)"
  using assms by (simp add: shift_def)

lemma ips_smoothed_shift:
  assumes "i < length xs"
  shows "ips_smoothed xs ! i = (if i + 4 < length xs then rolling_mean 8 xs ! (i + 4) else None)"
proof -
  have "nat (int i + 4) = i + 4" by simp
  then show ?thesis
    using assms by (simp add: ips_smoothed_def shift_nth length_rolling_mean nat_add_distrib)
qed

lemma ips_smoothed_nth:
  assumes "i < length xs"
  shows "ips_smoothed xs ! i
           = (if 3 \<le> i \<and> i + 4 < length xs then Some ((\<Sum>k = i - 3..i + 4. xs ! k) / 8)
              else None)"
proof (cases "i + 4 < length xs")
  case True
  have "i + 4 - 7 = i - 3" by simp
  then show ?thesis
    using True by (simp add: ips_smoothed_shift [OF assms] rolling_mean_8_nth)
next
  case False
  then show ?thesis by (simp add: ips_smoothed_shift [OF assms])
qed

lemma ips_d_nth:
  assumes "i < length xs"
  shows "ips_d xs ! i
           = (if 4 \<le> i then sub_nan (ips_smoothed xs ! i) (ips_smoothed xs ! (i - 4)) else None)"
proof -
  have "ips_d xs ! i = sub_nan (ips_smoothed xs ! i) (shift 4 (ips_smoothed xs) ! i)"
    using assms by (simp add: ips_d_def diff_def length_shift length_ips_smoothed)
  moreover have "shift 4 (ips_smoothed xs) ! i
                   = (if 4 \<le> i then ips_smoothed xs ! (i - 4) else None)"
  proof (cases "4 \<le> i")
    case True
    then have "nat (int i - 4) = i - 4" by simp
    then show ?thesis
      using assms True by (simp add: shift_nth length_ips_smoothed)
  next
    case False
    then show ?thesis
      using assms by (simp add: shift_nth length_ips_smoothed)
  qed
  moreover have "sub_nan a None = None" for a
    by (cases a) simp_all
  ultimately show ?thesis by simp
qed

lemma sub_nan_None: "a = None \<or> b = None \<Longrightarrow> sub_nan a b = None"
  by (cases a; cases b) auto

lemma ips_d_defined:
  assumes "i < length xs"
  shows "ips_d xs ! i
           = (if 7 \<le> i \<and> i + 4 < length xs
              then Some ((\<Sum>k = i - 3..i + 4. xs ! k) / 8 - (\<Sum>k = i - 7..i. xs ! k) / 8)
              else None)"
proof -
  have lt: "i - 4 < length xs" using assms by simp
  show ?thesis
  proof (cases "7 \<le> i \<and> i + 4 < length xs")
    case True
    then have "i - 4 - 3 = i - 7" "i - 4 + 4 = i" "3 \<le> i - 4" "3 \<le> i" by linarith+
    then show ?thesis
      using True by (simp add: ips_d_nth [OF assms] ips_smoothed_nth [OF assms]
          ips_smoothed_nth [OF lt])
  next
    case False
    then show ?thesis
      by (auto simp add: ips_d_nth [OF assms] ips_smoothed_nth [OF assms]
          ips_smoothed_nth [OF lt] sub_nan_None)
  qed
qed

lemma sum_interval_list: "(\<Sum>k = a..b. f k) = sum_list (map f [a..<Suc b])"
  by (simp only: interv_sum_list_conv_sum_set_nat set_upt atLeastLessThanSuc_atLeastAtMost)

section \<open>Properties of slicing and counting\<close>

lemma slice_bound_le: "slice_bound k n \<le> n"
  by (auto simp: slice_bound_def nat_le_iff)

lemma count_take_drop:
  "length (filter P (take (b - a) (drop a xs)))
     = card {j. a \<le> j \<and> j < b \<and> j < length xs \<and> P (xs ! j)}"
proof -
  let ?ys = "take (b - a) (drop a xs)"
  let ?K = "{k. k < length ?ys \<and> P (?ys ! k)}"
  have "{j. a \<le> j \<and> j < b \<and> j < length xs \<and> P (xs ! j)} = (\<lambda>k. k + a) ` ?K"
  proof (intro set_eqI iffI)
    fix j assume "j \<in> {j. a \<le> j \<and> j < b \<and> j < length xs \<and> P (xs ! j)}"
    then have j: "a \<le> j" "j < b" "j < length xs" "P (xs ! j)" by auto
    then have "j - a \<in> ?K" by (auto simp: add.commute)
    moreover have "j = (j - a) + a" using j by simp
    ultimately show "j \<in> (\<lambda>k. k + a) ` ?K" by (rule rev_image_eqI)
  next
    fix j assume "j \<in> (\<lambda>k. k + a) ` ?K"
    then obtain k where k: "j = k + a" "k < length ?ys" "P (?ys ! k)" by auto
    then show "j \<in> {j. a \<le> j \<and> j < b \<and> j < length xs \<and> P (xs ! j)}"
      by (auto simp: add.commute)
  qed
  moreover have "card ((\<lambda>k. k + a) ` ?K) = card ?K"
    by (intro card_image inj_onI) simp
  ultimately show ?thesis
    by (simp add: length_filter_conv_card)
qed

lemma exceeds_iff: "exceeds v \<longleftrightarrow> (\<exists>x. v = Some x \<and> 1 / 10 < x)"
  by (cases v) (simp_all add: exceeds_def)

lemma exceed_count_card:
  "exceed_count s e d
     = card {k. slice_bound (py_trunc s) (length d) \<le> k
              \<and> k < slice_bound (py_trunc e) (length d)
              \<and> (\<exists>x. d ! k = Some x \<and> 1 / 10 < x)}"
proof -
  have "k < slice_bound (py_trunc e) (length d) \<Longrightarrow> k < length d" for k
    using slice_bound_le [of "py_trunc e" "length d"] by simp
  then have "{j. slice_bound (py_trunc s) (length d) \<le> j
              \<and> j < slice_bound (py_trunc e) (length d) \<and> j < length d \<and> exceeds (d ! j)}
           = {k. slice_bound (py_trunc s) (length d) \<le> k
              \<and> k < slice_bound (py_trunc e) (length d)
              \<and> (\<exists>x. d ! k = Some x \<and> 1 / 10 < x)}"
    by (auto simp: exceeds_iff)
  then show ?thesis
    by (simp add: exceed_count_def py_slice_def count_take_drop)
qed



lemma py_trunc_window:
  assumes "0 \<le> s"
  shows "py_trunc (s + 27) = py_trunc s + 27" "0 \<le> py_trunc s"
proof -
  have f: "\<lfloor>s + 27\<rfloor> = \<lfloor>s\<rfloor> + 27" by linarith
  show "py_trunc (s + 27) = py_trunc s + 27" "0 \<le> py_trunc s"
    using assms by (simp_all add: py_trunc_def f)
qed




lemma py_slice_in_range:
  assumes "0 \<le> a" "a \<le> b" "b \<le> int (length xs)"
  shows "py_slice a b xs = map ((!) xs) [nat a..<nat b]"
proof (rule nth_equalityI)
  have sb: "slice_bound a (length xs) = nat a" "slice_bound b (length xs) = nat b"
    using assms by (auto simp: slice_bound_def)
  show "length (py_slice a b xs) = length (map ((!) xs) [nat a..<nat b])"
    using assms by (auto simp: py_slice_def sb)
  fix i assume "i < length (py_slice a b xs)"
  then show "py_slice a b xs ! i = map ((!) xs) [nat a..<nat b] ! i"
    using assms by (auto simp: py_slice_def sb)
qed

lemma py_slice_update_stop:
  assumes "0 \<le> b"
  shows "py_slice a b (xs[nat b := v]) = py_slice a b xs"
proof -
  let ?n = "length xs"
  have le: "slice_bound b ?n \<le> nat b"
    using assms by (auto simp: slice_bound_def)
  show ?thesis
  proof (cases "slice_bound a ?n \<le> nat b")
    case True
    have "take (slice_bound b ?n - slice_bound a ?n) ((drop (slice_bound a ?n) xs)[nat b - slice_bound a ?n := v])
            = take (slice_bound b ?n - slice_bound a ?n) (drop (slice_bound a ?n) xs)"
      using le by (intro take_update_cancel) simp
    then show ?thesis
      using True by (simp add: py_slice_def drop_update_swap)
  next
    case False
    then show ?thesis
      using le by (simp add: py_slice_def)
  qed
qed

section \<open>Properties of the top-talker filter and the scaling\<close>







lemma minmax_column_eq:
  "minmax_column xs
     = map (\<lambda>x. (x - data_min xs) / handle_zeros_in_scale 0 (data_max xs - data_min xs)) xs"
  by (simp add: minmax_column_def Let_def diff_divide_distrib)

lemma length_minmax_column: "length (minmax_column xs) = length xs"
  by (simp add: minmax_column_eq)








section \<open>Properties of the scaling under rounding\<close>



lemma is_rounding_id: "is_rounding (\<lambda>x. x)"
  by (simp add: is_rounding_def)





subsection \<open>Rounding to the nearest double is a rounding\<close>




































section \<open>Properties of the ranking\<close>












section \<open>Properties of the detection pipeline\<close>







lemma length_match_times_idx:
  "match_times_idx kos = Inr idx \<Longrightarrow> length idx = 2 * length kos"
  by (induction kos arbitrary: idx) (auto split: sum.splits)

lemma length_detect_all:
  "length idx = 2 * n \<Longrightarrow> length (detect_all srt idx frame) = n"
proof (induction srt idx frame arbitrary: n rule: detect_all.induct)
  case (1 srt s e rest frame)
  then obtain m where "n = Suc m" by (cases n) auto
  then show ?case using 1 by simp
qed auto

lemma model_one_returns:
  assumes "ips_normalized rows = Inr normed" "match_times_idx kos = Inr idx"
  shows "model_one srt rows kos = Inr (detect_all srt idx (map (\<lambda>(i, col). (i, ips_d col)) normed))"
    and "length (detect_all srt idx (map (\<lambda>(i, col). (i, ips_d col)) normed)) = length kos"
  using assms length_match_times_idx [OF assms(2)]
  by (simp_all add: model_one_def length_detect_all)







section \<open>Properties of the candidate detector\<close>

lemma exceed_count_ips_d_card:
  "exceed_count s e (ips_d xs)
     = card {k. slice_bound (py_trunc s) (length xs) \<le> k
              \<and> k < slice_bound (py_trunc e) (length xs)
              \<and> 7 \<le> k \<and> k + 4 < length xs
              \<and> 1 / 10 < (\<Sum>j = k - 3..k + 4. xs ! j) / 8 - (\<Sum>j = k - 7..k. xs ! j) / 8}"
proof -
  have lt: "k < slice_bound (py_trunc e) (length xs) \<Longrightarrow> k < length xs" for k
    using slice_bound_le [of "py_trunc e" "length xs"] by simp
  have "{k. slice_bound (py_trunc s) (length xs) \<le> k
              \<and> k < slice_bound (py_trunc e) (length xs)
              \<and> (\<exists>x. ips_d xs ! k = Some x \<and> 1 / 10 < x)}
      = {k. slice_bound (py_trunc s) (length xs) \<le> k
              \<and> k < slice_bound (py_trunc e) (length xs)
              \<and> 7 \<le> k \<and> k + 4 < length xs
              \<and> 1 / 10 < (\<Sum>j = k - 3..k + 4. xs ! j) / 8 - (\<Sum>j = k - 7..k. xs ! j) / 8}"
    using lt by (auto simp: ips_d_defined split: if_splits)
  then show ?thesis
    using exceed_count_card [of s e "ips_d xs"] by (simp add: length_ips_d)
qed

lemma exceed_count_all_undefined:
  assumes "\<forall>v\<in>set (py_slice (py_trunc s) (py_trunc e) d). v = None"
  shows "exceed_count s e d = 0"
  using assms by (auto simp: exceed_count_def exceeds_def filter_empty_conv)

lemma window_indices_27:
  assumes "s_idx ko = Inr s" "e_idx ko = Inr e"
  shows "e = s + 27"
  using assms by (auto simp: s_idx_def e_idx_def split: sum.splits)

lemma exceed_count_update_stop:
  assumes "0 \<le> py_trunc e"
  shows "exceed_count s e (d[nat (py_trunc e) := v]) = exceed_count s e d"
  by (simp add: exceed_count_def py_slice_update_stop [OF assms])

lemma count_map_nth:
  "length (filter P (map ((!) d) [a..<b])) = card {k. a \<le> k \<and> k < b \<and> P (d ! k)}"
proof -
  have "distinct (filter (\<lambda>k. P (d ! k)) [a..<b])" by simp
  then have "card (set (filter (\<lambda>k. P (d ! k)) [a..<b])) = length (filter (\<lambda>k. P (d ! k)) [a..<b])"
    by (rule distinct_card)
  moreover have "set (filter (\<lambda>k. P (d ! k)) [a..<b]) = {k. a \<le> k \<and> k < b \<and> P (d ! k)}"
    by auto
  moreover have "length (filter P (map ((!) d) [a..<b])) = length (filter (\<lambda>k. P (d ! k)) [a..<b])"
    by (simp add: filter_map comp_def)
  ultimately show ?thesis by simp
qed


section \<open>The example inputs, evaluated\<close>


lemma ex_ramp_single_normalized:
  "ips_normalized (ex_ramp 2) = Inr [(2, ex_ramp_normalized)]"
  by code_simp

lemma ex_ramp_ips_d: "ips_d ex_ramp_normalized = ex_ramp_d"
  by code_simp

lemma ex_idx_0030: "match_times_idx [''00:30''] = Inr [0, 27]"
  by code_simp

lemma ex_idx_0000: "match_times_idx [''00:00''] = Inr [- 6, 21]"
  by code_simp

lemma ex_s_0030: "s_idx ''00:30'' = Inr 0"
  by code_simp
lemma ex_e_0030: "e_idx ''00:30'' = Inr 27"
  by code_simp
lemma ex_s_0000: "s_idx ''00:00'' = Inr (- 6)"
  by code_simp
lemma ex_e_0000: "e_idx ''00:00'' = Inr 21"
  by code_simp


lemma ex_ramp_count_0000: "exceed_count (- 6) 21 ex_ramp_d = 2"
  by code_simp



lemma ex_short_normalized: "ips_normalized ex_short = Inr [(2, [0, 1 / 2, 1])]"
  by code_simp

lemma ex_short_ips_d: "ips_d [0, 1 / 2, 1] = [None, None, None]"
  by code_simp

lemma ex_s_1500: "s_idx ''15:00'' = Inr 174"
  by code_simp

lemma ex_e_1500: "e_idx ''15:00'' = Inr 201"
  by code_simp

lemma ex_s_2300: "s_idx ''23:00'' = Inr 270"
  by code_simp

lemma ex_e_2300: "e_idx ''23:00'' = Inr 297"
  by code_simp

lemma ex_mixed_pivot:
  "ip_pivot ex_mixed
     = [(2, [Some (1 / 100), Some (2 / 100)]), (3, [Some 1, Some 3]), (4, [Some 5, Some 5]),
        (5, [None, Some 4])]"
  by code_simp

lemma ex_mixed_normalized:
  "ips_normalized ex_mixed = Inr [(3, [0, 1]), (4, [0, 0]), (5, [0, 1])]"
  by code_simp












section \<open>Sums and filters over groups\<close>

lemma sum_list_delta:
  fixes v :: "'b::comm_monoid_add"
  assumes "distinct ks"
  shows "sum_list (map (\<lambda>k. if a = k then v else 0) ks) = (if a \<in> set ks then v else 0)"
  using assms by (induction ks) auto

lemma sum_list_group:
  fixes g :: "'a \<Rightarrow> 'b::comm_monoid_add"
  assumes "distinct ks" "f ` set xs \<subseteq> set ks"
  shows "sum_list (map (\<lambda>k. sum_list (map g (filter (\<lambda>x. f x = k) xs))) ks) = sum_list (map g xs)"
  using assms(2)
proof (induction xs)
  case Nil
  then show ?case by simp
next
  case (Cons x xs)
  have x: "f x \<in> set ks" using Cons.prems by simp
  have "sum_list (map (\<lambda>k. sum_list (map g (filter (\<lambda>y. f y = k) (x # xs)))) ks)
          = sum_list (map (\<lambda>k. (if f x = k then g x else 0)
                                 + sum_list (map g (filter (\<lambda>y. f y = k) xs))) ks)"
    by (intro arg_cong [where f = sum_list] map_cong refl) simp
  also have "\<dots> = sum_list (map (\<lambda>k. if f x = k then g x else 0) ks)
                   + sum_list (map (\<lambda>k. sum_list (map g (filter (\<lambda>y. f y = k) xs))) ks)"
    by (rule sum_list_addf)
  also have "\<dots> = g x + sum_list (map g xs)"
    using Cons x by (simp add: sum_list_delta [OF assms(1)])
  finally show ?case by simp
qed

lemma filter_concat_keyed:
  assumes "distinct ks" "\<And>k c. c \<in> set (F k) \<Longrightarrow> key c = k"
  shows "filter (\<lambda>c. key c = i) (concat (map F ks)) = (if i \<in> set ks then F i else [])"
  using assms(1)
proof (induction ks)
  case Nil
  then show ?case by simp
next
  case (Cons k ks)
  have other: "filter (\<lambda>c. key c = i) (F k) = (if k = i then F k else [])"
    using assms(2) [of _ k] by (auto simp: filter_empty_conv intro: filter_True)
  show ?case
    using Cons other by auto
qed

section \<open>Properties of the cleaned frame and the noise frame\<close>

lemma clean_rows_of_ip:
  "filter (\<lambda>c. c_ip c = i) (clean_ip_traffic_df rows)
     = map (\<lambda>t. \<lparr>c_ip = i, c_timestamp = t,
                  c_gigabits = sum_list (map gigabits_or_0
                     (filter (\<lambda>r. in_ip r = i \<and> in_timestamp r = t) rows))\<rparr>)
         (sort (remdups (map in_timestamp (filter (\<lambda>r. in_ip r = i) rows))))"
proof -
  let ?F = "\<lambda>i. map (\<lambda>t. \<lparr>c_ip = i, c_timestamp = t,
                  c_gigabits = sum_list (map gigabits_or_0
                     (filter (\<lambda>r. in_ip r = i \<and> in_timestamp r = t) rows))\<rparr>)
         (sort (remdups (map in_timestamp (filter (\<lambda>r. in_ip r = i) rows))))"
  have d: "distinct (sort (remdups (map in_ip rows)))" by simp
  have k: "\<And>k c. c \<in> set (?F k) \<Longrightarrow> c_ip c = k" by auto
  have "filter (\<lambda>c. c_ip c = i) (concat (map ?F (sort (remdups (map in_ip rows)))))
          = (if i \<in> set (sort (remdups (map in_ip rows))) then ?F i else [])"
    using d k by (rule filter_concat_keyed)
  moreover have "?F i = []" if "i \<notin> set (sort (remdups (map in_ip rows)))"
  proof -
    have "filter (\<lambda>r. in_ip r = i) rows = []"
      using that by (auto simp: filter_empty_conv)
    then show ?thesis by simp
  qed
  ultimately show ?thesis
    unfolding clean_ip_traffic_df_def by presburger
qed

lemma clean_row_gigabits:
  assumes "c \<in> set (clean_ip_traffic_df rows)"
  shows "c_gigabits c = sum_list (map gigabits_or_0
           (filter (\<lambda>r. in_ip r = c_ip c \<and> in_timestamp r = c_timestamp c) rows))"
    and "\<exists>r\<in>set rows. in_ip r = c_ip c \<and> in_timestamp r = c_timestamp c"
  using assms by (auto simp: clean_ip_traffic_df_def)

lemma clean_window_sum:
  "sum_list (map c_gigabits
      (filter (\<lambda>c. c_ip c = i)
         (filter (\<lambda>c. in_noise_window ko (c_timestamp c)) (clean_ip_traffic_df rows))))
     = raw_noise_sum ko rows i"
proof -
  let ?T = "sort (remdups (map in_timestamp (filter (\<lambda>r. in_ip r = i) rows)))"
  let ?W = "filter (in_noise_window ko) ?T"
  let ?xs = "filter (\<lambda>r. in_ip r = i \<and> in_noise_window ko (in_timestamp r)) rows"
  let ?S = "\<lambda>t. sum_list (map gigabits_or_0 (filter (\<lambda>r. in_ip r = i \<and> in_timestamp r = t) rows))"
  have "filter (\<lambda>c. c_ip c = i)
          (filter (\<lambda>c. in_noise_window ko (c_timestamp c)) (clean_ip_traffic_df rows))
        = filter (\<lambda>c. in_noise_window ko (c_timestamp c))
            (filter (\<lambda>c. c_ip c = i) (clean_ip_traffic_df rows))"
    by (simp add: conj_commute)
  also have "\<dots> = map (\<lambda>t. \<lparr>c_ip = i, c_timestamp = t, c_gigabits = ?S t\<rparr>) ?W"
    by (simp add: clean_rows_of_ip filter_map comp_def)
  finally have "sum_list (map c_gigabits
      (filter (\<lambda>c. c_ip c = i)
         (filter (\<lambda>c. in_noise_window ko (c_timestamp c)) (clean_ip_traffic_df rows))))
     = sum_list (map ?S ?W)"
    by (simp add: comp_def)
  also have "\<dots> = sum_list (map (\<lambda>t. sum_list (map gigabits_or_0
                                  (filter (\<lambda>r. in_timestamp r = t) ?xs))) ?W)"
    by (intro arg_cong [where f = sum_list] map_cong refl arg_cong [where f = "map gigabits_or_0"])
       (auto intro: filter_cong)
  also have "\<dots> = sum_list (map gigabits_or_0 ?xs)"
  proof (rule sum_list_group)
    show "distinct ?W" by simp
    show "in_timestamp ` set ?xs \<subseteq> set ?W" by auto
  qed
  finally show ?thesis by (simp add: raw_noise_sum_def)
qed

lemma raw_noise_sum_empty:
  assumes "\<forall>r\<in>set rows. in_ip r = i \<longrightarrow> \<not> in_noise_window ko (in_timestamp r)"
  shows "raw_noise_sum ko rows i = 0"
proof -
  have "filter (\<lambda>r. in_ip r = i \<and> in_noise_window ko (in_timestamp r)) rows = []"
    using assms by (auto simp: filter_empty_conv)
  then show ?thesis by (simp add: raw_noise_sum_def)
qed

lemma noise_df_entry:
  assumes "(i, n) \<in> set (noise_df ko rows)"
  shows "n = raw_noise_sum ko rows i / 12"
  using assms by (auto simp: noise_df_def clean_window_sum simp del: filter_filter)

lemma noise_gigabits_noise_df:
  "noise_gigabits (noise_df ko rows) i = raw_noise_sum ko rows i / 12"
proof (cases "map_of (noise_df ko rows) i")
  case None
  let ?w = "filter (\<lambda>c. in_noise_window ko (c_timestamp c)) (clean_ip_traffic_df rows)"
  have "i \<notin> fst ` set (noise_df ko rows)"
    using None by (simp add: map_of_eq_None_iff)
  then have "i \<notin> c_ip ` set ?w"
    by (simp add: noise_df_def image_comp comp_def)
  then have "filter (\<lambda>c. c_ip c = i) ?w = []"
    by (auto simp: filter_empty_conv)
  then have "raw_noise_sum ko rows i = 0"
    using clean_window_sum [of i ko rows] by simp
  then show ?thesis using None by (simp add: noise_gigabits_def)
next
  case (Some n)
  then have "(i, n) \<in> set (noise_df ko rows)" by (rule map_of_SomeD)
  then have "n = raw_noise_sum ko rows i / 12" by (rule noise_df_entry)
  then show ?thesis using Some by (simp add: noise_gigabits_def)
qed

lemma map_fst_noise_df:
  "map fst (noise_df ko rows)
     = sort (remdups (map c_ip
          (filter (\<lambda>c. in_noise_window ko (c_timestamp c)) (clean_ip_traffic_df rows))))"
  by (simp add: noise_df_def comp_def)

lemma processed_row_fields:
  assumes "p \<in> set (processed_ip_traffic_df ko rows)"
  shows "in_match_window ko (p_timestamp p)"
    and "p_gigabits p = sum_list (map gigabits_or_0
           (filter (\<lambda>r. in_ip r = p_ip p \<and> in_timestamp r = p_timestamp p) rows))"
    and "p_noise_gigabits p = raw_noise_sum ko rows (p_ip p) / 12"
    and "p_piracy_gigabits p = max (p_gigabits p - p_noise_gigabits p) 0"
    and "p_gbps p = p_gigabits p / 300"
    and "p_piracy_gbps p = p_piracy_gigabits p / 300"
    and "\<exists>r\<in>set rows. in_ip r = p_ip p \<and> in_timestamp r = p_timestamp p"
proof -
  obtain c where c: "c \<in> set (clean_ip_traffic_df rows)" "in_match_window ko (c_timestamp c)"
    "p = process_row (noise_df ko rows) c"
    using assms by (auto simp: processed_ip_traffic_df_def)
  show "in_match_window ko (p_timestamp p)"
    using c by (simp add: process_row_def)
  show "p_gigabits p = sum_list (map gigabits_or_0
           (filter (\<lambda>r. in_ip r = p_ip p \<and> in_timestamp r = p_timestamp p) rows))"
    using clean_row_gigabits(1) [OF c(1)] by (simp add: c(3) process_row_def)
  show "p_noise_gigabits p = raw_noise_sum ko rows (p_ip p) / 12"
    by (simp add: c(3) process_row_def noise_gigabits_noise_df)
  show "p_piracy_gigabits p = max (p_gigabits p - p_noise_gigabits p) 0"
    by (simp add: c(3) process_row_def)
  show "p_gbps p = p_gigabits p / 300"
    by (simp add: c(3) process_row_def)
  show "p_piracy_gbps p = p_piracy_gigabits p / 300"
    by (simp add: c(3) process_row_def)
  show "\<exists>r\<in>set rows. in_ip r = p_ip p \<and> in_timestamp r = p_timestamp p"
    using clean_row_gigabits(2) [OF c(1)] by (simp add: c(3) process_row_def)
qed

lemma noise_df_keys_have_samples:
  assumes "i \<in> fst ` set (noise_df ko rows)"
  shows "\<exists>r\<in>set rows. in_ip r = i \<and> in_noise_window ko (in_timestamp r)"
proof -
  have "i \<in> set (map fst (noise_df ko rows))" using assms by simp
  then obtain c where c: "c \<in> set (clean_ip_traffic_df rows)" "in_noise_window ko (c_timestamp c)"
    "c_ip c = i"
    unfolding map_fst_noise_df by auto
  then show ?thesis
    using clean_row_gigabits(2) [OF c(1)] by auto
qed

section \<open>Properties of the base frame and the join\<close>

lemma drop_duplicates_last_subset: "set (drop_duplicates_last rs) \<subseteq> set rs"
  by (induction rs) auto

lemma drop_duplicates_last_keys: "in_ip ` set (drop_duplicates_last rs) = in_ip ` set rs"
  by (induction rs) auto

lemma drop_duplicates_last_distinct: "distinct (map in_ip (drop_duplicates_last rs))"
proof (induction rs)
  case Nil
  then show ?case by simp
next
  case (Cons r rs)
  then show ?case
    using drop_duplicates_last_keys [of rs] by auto
qed

lemma drop_duplicates_last_append:
  "drop_duplicates_last (xs @ ys)
     = filter (\<lambda>r. in_ip r \<notin> in_ip ` set ys) (drop_duplicates_last xs) @ drop_duplicates_last ys"
  by (induction xs) auto

lemma sorts_by_asn_set:
  assumes "sorts_by_asn srt"
  shows "set (srt xs) = set xs"
  using assms unfolding sorts_by_asn_def by (metis mset_eq_setD)

lemma sort_values_asn_set:
  assumes "sorts_by_asn srt"
  shows "set (sort_values_asn srt rows) = set rows"
  by (auto simp: sort_values_asn_def sorts_by_asn_set [OF assms])

lemma sorts_by_asn_stable: "sorts_by_asn sort_asn_stable"
  by (simp add: sorts_by_asn_def sort_asn_stable_def)

lemma kept_row_has_asn:
  assumes "sorts_by_asn srt"
    and "r \<in> set (drop_duplicates_last (sort_values_asn srt rows))"
    and "q \<in> set rows" "in_ip q = in_ip r" "in_asn q \<noteq> None"
  shows "in_asn r \<noteq> None"
proof -
  let ?nn = "srt (filter (\<lambda>r. in_asn r \<noteq> None) rows)"
  have nn: "set ?nn = {r \<in> set rows. in_asn r \<noteq> None}"
    by (simp add: sorts_by_asn_set [OF assms(1)])
  then have "in_ip r \<in> in_ip ` set ?nn"
    using assms(3-5) by (metis (mono_tags, lifting) imageI mem_Collect_eq)
  then have "r \<in> set (drop_duplicates_last ?nn)"
    using assms(2) unfolding sort_values_asn_def drop_duplicates_last_append by auto
  then have "r \<in> set ?nn"
    using drop_duplicates_last_subset by blast
  then show ?thesis using nn by simp
qed

lemma base_df_keys:
  assumes "sorts_by_asn srt"
  shows "b_ip ` set (base_df srt ko season gw rows) = in_ip ` set rows"
    and "distinct (map b_ip (base_df srt ko season gw rows))"
proof -
  have "map b_ip (base_df srt ko season gw rows)
          = map in_ip (drop_duplicates_last (sort_values_asn srt rows))"
    by (simp add: base_df_def comp_def)
  then show "distinct (map b_ip (base_df srt ko season gw rows))"
    by (simp add: drop_duplicates_last_distinct)
  have "b_ip ` set (base_df srt ko season gw rows)
          = in_ip ` set (drop_duplicates_last (sort_values_asn srt rows))"
    by (simp add: base_df_def image_comp comp_def)
  then show "b_ip ` set (base_df srt ko season gw rows) = in_ip ` set rows"
    by (simp add: drop_duplicates_last_keys sort_values_asn_set [OF assms])
qed

lemma base_df_row_origin:
  assumes "sorts_by_asn srt" "b \<in> set (base_df srt ko season gw rows)"
  shows "\<exists>r\<in>set rows. b_ip b = in_ip r \<and> b_asn b = in_asn r \<and> b_as_name b = in_as_name r
           \<and> b_analyse b = in_analyse r \<and> b_vpn b = in_vpn r \<and> b_vpn_name b = in_vpn_name r"
    and "b_season b = season \<and> b_game_week b = gw \<and> b_ko_timestamp b = ko"
proof -
  obtain r where r: "r \<in> set (drop_duplicates_last (sort_values_asn srt rows))"
    "b = \<lparr>b_ip = in_ip r, b_asn = in_asn r, b_as_name = in_as_name r,
               b_analyse = in_analyse r, b_vpn = in_vpn r, b_vpn_name = in_vpn_name r,
               b_season = season, b_game_week = gw, b_ko_timestamp = ko\<rparr>"
    using assms(2) by (auto simp: base_df_def)
  have "r \<in> set rows"
    using r(1) drop_duplicates_last_subset sort_values_asn_set [OF assms(1)] by blast
  then show "\<exists>r\<in>set rows. b_ip b = in_ip r \<and> b_asn b = in_asn r \<and> b_as_name b = in_as_name r
           \<and> b_analyse b = in_analyse r \<and> b_vpn b = in_vpn r \<and> b_vpn_name b = in_vpn_name r"
    using r(2) by (intro bexI [of _ r]) simp_all
  show "b_season b = season \<and> b_game_week b = gw \<and> b_ko_timestamp b = ko"
    using r(2) by simp
qed

lemma base_df_prefers_asn:
  assumes "sorts_by_asn srt" "b \<in> set (base_df srt ko season gw rows)"
    and "q \<in> set rows" "in_ip q = b_ip b" "in_asn q \<noteq> None"
  shows "b_asn b \<noteq> None"
proof -
  obtain r where r: "r \<in> set (drop_duplicates_last (sort_values_asn srt rows))"
    "b_ip b = in_ip r" "b_asn b = in_asn r"
    using assms(2) by (auto simp: base_df_def)
  have "in_asn r \<noteq> None"
    using assms(1) r(1) assms(3) _ assms(5) by (rule kept_row_has_asn) (simp add: assms(4) r(2))
  then show ?thesis by (simp add: r(3))
qed

lemma set_merge_on_ip:
  "set (merge_on_ip base traffic)
     = {join_rows b p |b p. b \<in> set base \<and> p \<in> set traffic \<and> p_ip p = b_ip b}"
  by (auto simp: merge_on_ip_def)



lemma kept_row_largest_asn:
  assumes "sorted (map asn_key xs)" "r \<in> set (drop_duplicates_last xs)" "q \<in> set xs"
    "in_ip q = in_ip r"
  shows "asn_key q \<le> asn_key r"
  using assms
proof (induction xs)
  case Nil
  then show ?case by simp
next
  case (Cons x xs)
  have sub: "set (drop_duplicates_last xs) \<subseteq> set xs"
    by (rule drop_duplicates_last_subset)
  show ?case
  proof (cases "in_ip x \<in> set (map in_ip xs)")
    case True
    then have r: "r \<in> set (drop_duplicates_last xs)" using Cons.prems(2) by simp
    show ?thesis
    proof (cases "q = x")
      case True
      then show ?thesis using Cons.prems(1) r sub by auto
    next
      case False
      then show ?thesis using Cons r by auto
    qed
  next
    case False
    then show ?thesis
      using Cons sub by (auto simp: image_iff)
  qed
qed

lemma output_row_origin:
  assumes "out \<in> set (construct_output_df srt ko season gw rows)"
  shows "\<exists>b p. b \<in> set (base_df srt ko season gw rows)
           \<and> p \<in> set (processed_ip_traffic_df ko rows) \<and> p_ip p = b_ip b \<and> out = join_rows b p"
  using assms by (auto simp: construct_output_df_def set_merge_on_ip)




section \<open>The example traffic frames, evaluated\<close>

lemma ex_attr_output:
  "construct_output_df sort_asn_stable 0 ''2020/21'' 31 ex_attr
     = [\<lparr>o_ip = 3, o_asn = None, o_as_name = None, o_analyse = Some True, o_vpn = Some False,
         o_vpn_name = None, o_season = ''2020/21'', o_game_week = 31, o_ko_timestamp = 0,
         o_timestamp = minutes 5, o_gigabits = 2, o_piracy_gigabits = 0, o_gbps = 2 / 300,
         o_piracy_gbps = 0\<rparr>,
        \<lparr>o_ip = 2, o_asn = Some 64500, o_as_name = Some ''AS-TWO'', o_analyse = Some True,
         o_vpn = Some False, o_vpn_name = None, o_season = ''2020/21'', o_game_week = 31,
         o_ko_timestamp = 0, o_timestamp = 0, o_gigabits = 5, o_piracy_gigabits = 3,
         o_gbps = 5 / 300, o_piracy_gbps = 3 / 300\<rparr>]"
  by code_simp

lemma ex_attr_processed:
  "processed_ip_traffic_df 0 ex_attr
     = [\<lparr>p_ip = 2, p_timestamp = 0, p_gigabits = 5, p_noise_gigabits = 2, p_piracy_gigabits = 3,
         p_gbps = 5 / 300, p_piracy_gbps = 3 / 300\<rparr>,
        \<lparr>p_ip = 3, p_timestamp = minutes 5, p_gigabits = 2, p_noise_gigabits = 5,
         p_piracy_gigabits = 0, p_gbps = 2 / 300, p_piracy_gbps = 0\<rparr>]"
  by code_simp

lemma ex_quiet_noise: "noise_df 0 ex_quiet = [(2, 10 / 12), (4, 1)]"
  by code_simp

lemma ex_quiet_raw:
  "raw_noise_sum 0 ex_quiet 2 = 10" "raw_noise_sum 0 ex_quiet 3 = 0" "raw_noise_sum 0 ex_quiet 4 = 12"
  by code_simp+

lemma ex_quiet_processed:
  "map (\<lambda>p. (p_ip p, p_noise_gigabits p)) (processed_ip_traffic_df 0 ex_quiet)
     = [(2, 10 / 12), (3, 0), (4, 1)]"
  by code_simp

lemma ex_meta_base:
  "base_df sort_asn_stable 0 ''2020/21'' 31 ex_meta
     = [\<lparr>b_ip = 3, b_asn = None, b_as_name = None, b_analyse = Some True, b_vpn = Some False,
         b_vpn_name = None, b_season = ''2020/21'', b_game_week = 31, b_ko_timestamp = 0\<rparr>,
        \<lparr>b_ip = 2, b_asn = Some 64500, b_as_name = None, b_analyse = Some True,
         b_vpn = Some False, b_vpn_name = None, b_season = ''2020/21'', b_game_week = 31,
         b_ko_timestamp = 0\<rparr>]"
  by code_simp

section \<open>The claims about the detection script\<close>

text \<open>
  C6. The smoothed series is the mean of the normalised series over 8 consecutive buckets,
  moved 4 positions back: position \<open>i\<close> holds the rolling mean of position \<open>i + 4\<close>, that is
  the mean of positions \<open>i - 3\<close> to \<open>i + 4\<close>, and is undefined when \<open>i < 3\<close> or when
  \<open>i + 4\<close> is past the end. The differenced series is \<open>smoothed(i) - smoothed(i - 4)\<close>, and is
  undefined whenever one of the two is.
\<close>

theorem smoothing_and_differencing:
  assumes "i < length xs"
  shows "rolling_mean 8 xs ! i = (if 7 \<le> i then Some ((\<Sum>k = i - 7..i. xs ! k) / 8) else None)
       \<and> ips_smoothed xs ! i = (if i + 4 < length xs then rolling_mean 8 xs ! (i + 4) else None)
       \<and> ips_smoothed xs ! i
           = (if 3 \<le> i \<and> i + 4 < length xs then Some ((\<Sum>k = i - 3..i + 4. xs ! k) / 8)
              else None)
       \<and> ips_d xs ! i
           = (if 4 \<le> i then sub_nan (ips_smoothed xs ! i) (ips_smoothed xs ! (i - 4)) else None)
       \<and> (\<forall>a b. 4 \<le> i \<and> ips_smoothed xs ! i = Some a \<and> ips_smoothed xs ! (i - 4) = Some b
              \<longrightarrow> ips_d xs ! i = Some (a - b))
       \<and> (i < 4 \<or> ips_smoothed xs ! i = None \<or> ips_smoothed xs ! (i - 4) = None
              \<longrightarrow> ips_d xs ! i = None)
       \<and> length (ips_smoothed xs) = length xs \<and> length (ips_d xs) = length xs"
  using assms
  by (auto simp: rolling_mean_8_nth ips_smoothed_shift ips_d_nth sub_nan_None
      length_ips_smoothed length_ips_d simp del: ips_smoothed_nth
      dest: ips_smoothed_nth)

theorem smoothing_and_differencing_witness:
  "7 < length ex_series
   \<and> rolling_mean 8 ex_series ! 7 = Some (7 / 2)
   \<and> ips_smoothed ex_series ! 7 = Some (15 / 2)
   \<and> ips_smoothed ex_series ! 3 = Some (7 / 2)
   \<and> ips_d ex_series ! 7 = Some 4
   \<and> ips_smoothed ex_series ! 8 = None
   \<and> ips_d ex_series ! 8 = None
   \<and> ips_d ex_series ! 3 = None"
proof -
  have len: "length ex_series = 12" by (simp add: ex_series_def)
  have s1: "(\<Sum>k = 0..7. ex_series ! k) = 28"
    by code_simp
  have s2: "(\<Sum>k = 4..11. ex_series ! k) = 60"
    by code_simp
  have h7: "7 < length ex_series" and h3: "3 < length ex_series" and h8: "8 < length ex_series"
    by (simp_all add: len)
  note at7 = smoothing_and_differencing [OF h7]
  note at3 = smoothing_and_differencing [OF h3]
  note at8 = smoothing_and_differencing [OF h8]
  have r7: "rolling_mean 8 ex_series ! 7 = Some (7 / 2)"
    using at7 [THEN conjunct1] s1 by simp
  have m7: "ips_smoothed ex_series ! 7 = Some (15 / 2)"
    using at7 [THEN conjunct2, THEN conjunct2, THEN conjunct1] s2 by (simp add: len)
  have m3: "ips_smoothed ex_series ! 3 = Some (7 / 2)"
    using at3 [THEN conjunct2, THEN conjunct2, THEN conjunct1] s1 by (simp add: len)
  have d7: "ips_d ex_series ! 7 = Some 4"
    using at7 [THEN conjunct2, THEN conjunct2, THEN conjunct2, THEN conjunct1] m7 m3 by simp
  have m8: "ips_smoothed ex_series ! 8 = None"
    using at8 [THEN conjunct2, THEN conjunct2, THEN conjunct1] by (simp add: len)
  have d8: "ips_d ex_series ! 8 = None"
    using at8 [THEN conjunct2, THEN conjunct2, THEN conjunct2, THEN conjunct2, THEN conjunct2,
        THEN conjunct1] m8 by simp
  have d3: "ips_d ex_series ! 3 = None"
    using at3 [THEN conjunct2, THEN conjunct2, THEN conjunct2, THEN conjunct1] by simp
  show ?thesis
    using h7 r7 m7 m3 d7 m8 d8 d3 by blast
qed

text \<open>
  C7. A bucket whose differenced value is undefined never exceeds the rise threshold: the
  comparison with NaN is false, so \<open>exceed_count\<close> is the number of window positions that hold
  a value above 0.1, and undefined positions add nothing. For the differenced series of any
  normalised series the positions below 7 and the last 4 positions are undefined and are never
  counted; no value is put in their place. A window that holds undefined buckets only counts
  0. Once the frame is normalised and the kickoff strings are parsed, \<open>model_one\<close> returns a
  candidate list for every match, whatever is undefined in the series.
\<close>

theorem undefined_buckets_do_not_exceed:
  "\<not> exceeds None
   \<and> exceed_count s e d
       = card {k. slice_bound (py_trunc s) (length d) \<le> k
                \<and> k < slice_bound (py_trunc e) (length d)
                \<and> (\<exists>x. d ! k = Some x \<and> 1 / 10 < x)}
   \<and> exceed_count s e (ips_d xs)
       = card {k. slice_bound (py_trunc s) (length xs) \<le> k
                \<and> k < slice_bound (py_trunc e) (length xs)
                \<and> 7 \<le> k \<and> k + 4 < length xs
                \<and> 1 / 10 < (\<Sum>j = k - 3..k + 4. xs ! j) / 8 - (\<Sum>j = k - 7..k. xs ! j) / 8}
   \<and> ((\<forall>v\<in>set (py_slice (py_trunc s) (py_trunc e) d). v = None) \<longrightarrow> exceed_count s e d = 0)
   \<and> (ips_normalized rows = Inr normed \<and> match_times_idx kos = Inr idx \<longrightarrow>
         model_one srt rows kos
           = Inr (detect_all srt idx (map (\<lambda>(i, col). (i, ips_d col)) normed))
         \<and> length (detect_all srt idx (map (\<lambda>(i, col). (i, ips_d col)) normed)) = length kos)"
proof -
  have "\<not> exceeds None" by (simp add: exceeds_def)
  then show ?thesis
    using exceed_count_card [of s e d] exceed_count_ips_d_card [of s e xs]
      exceed_count_all_undefined [of s e d] model_one_returns [of rows normed kos idx srt]
    by blast
qed

theorem undefined_buckets_do_not_exceed_witness:
  "ips_normalized ex_short = Inr [(2, [0, 1 / 2, 1])]
   \<and> match_times_idx [''00:30''] = Inr [0, 27]
   \<and> ips_d [0, 1 / 2, 1] = [None, None, None]
   \<and> py_slice (py_trunc 0) (py_trunc 27) [None, None, None :: real option] = [None, None, None]
   \<and> exceed_count 0 27 [None, None, None] = 0
   \<and> model_one sort_desc_stable ex_short [''00:30''] = Inr [[]]"
proof -
  have idx: "match_times_idx [''00:30''] = Inr [0, 27]"
    by (simp add: ex_s_0030 ex_e_0030)
  have sl: "py_slice (py_trunc 0) (py_trunc 27) [None, None, None :: real option]
              = [None, None, None]"
    by (simp add: py_slice_def slice_bound_def py_trunc_def)
  then have und:
    "\<forall>v\<in>set (py_slice (py_trunc 0) (py_trunc 27) [None, None, None :: real option]). v = None"
    by simp
  note w = undefined_buckets_do_not_exceed
    [of 0 27 "[None, None, None]" "[0, 1 / 2, 1]" ex_short "[(2, [0, 1 / 2, 1])]"
        "[''00:30'']" "[0, 27]" sort_desc_stable]
  have cnt: "exceed_count 0 27 [None, None, None] = 0"
    using w und by blast
  have srt: "sort_desc_stable ([] :: (nat \<times> nat) list) = []"
    by (simp add: sort_desc_stable_def)
  have "model_one sort_desc_stable ex_short [''00:30'']
          = Inr (detect_all sort_desc_stable [0, 27]
                   (map (\<lambda>(i, col). (i, ips_d col)) [(2, [0, 1 / 2, 1])]))"
    using w ex_short_normalized idx by blast
  then have m: "model_one sort_desc_stable ex_short [''00:30''] = Inr [[]]"
    by (simp add: ex_short_ips_d ip_pirate_list_def ranked_counts_def exceed_counts_def cnt srt)
  show ?thesis
    using ex_short_normalized idx ex_short_ips_d sl cnt m by blast
qed

text \<open>
  C10, as the code has it. The frame is sliced by row position with Python's rules, so the
  scan covers the positions \<open>start_index\<close> to \<open>end_index - 1\<close>, 27 of them, when the window
  lies inside the frame: \<open>0 \<le> start_index\<close> and \<open>end_index\<close> at most the number of rows. There
  \<open>exceed_count\<close> is the number of these positions that exceed, and the value at position
  \<open>end_index\<close> has no effect on it.
\<close>

theorem window_scan_in_range:
  assumes "s_idx ko = Inr s" "e_idx ko = Inr e" "0 \<le> s" "py_trunc e \<le> int (length d)"
  shows "py_slice (py_trunc s) (py_trunc e) d = map ((!) d) [nat (py_trunc s)..<nat (py_trunc e)]
       \<and> nat (py_trunc e) = nat (py_trunc s) + 27
       \<and> length (py_slice (py_trunc s) (py_trunc e) d) = 27
       \<and> exceed_count s e d
           = card {k. nat (py_trunc s) \<le> k \<and> k < nat (py_trunc e) \<and> exceeds (d ! k)}
       \<and> exceed_count s e (d[nat (py_trunc e) := v]) = exceed_count s e d"
proof -
  have e: "e = s + 27" using assms(1,2) by (rule window_indices_27)
  have t: "py_trunc e = py_trunc s + 27" "0 \<le> py_trunc s"
    using py_trunc_window [OF assms(3)] by (simp_all add: e)
  have sl: "py_slice (py_trunc s) (py_trunc e) d = map ((!) d) [nat (py_trunc s)..<nat (py_trunc e)]"
    using t assms(4) by (intro py_slice_in_range) simp_all
  have n: "nat (py_trunc e) = nat (py_trunc s) + 27"
    using t by (simp add: nat_add_distrib)
  have len: "length (py_slice (py_trunc s) (py_trunc e) d) = 27"
    by (simp add: sl n)
  have cnt: "exceed_count s e d
           = card {k. nat (py_trunc s) \<le> k \<and> k < nat (py_trunc e) \<and> exceeds (d ! k)}"
    unfolding exceed_count_def sl by (rule count_map_nth)
  have upd: "exceed_count s e (d[nat (py_trunc e) := v]) = exceed_count s e d"
    using t by (intro exceed_count_update_stop) simp
  show ?thesis using sl n len cnt upd by blast
qed

theorem window_scan_in_range_witness:
  "s_idx ''00:30'' = Inr 0 \<and> e_idx ''00:30'' = Inr 27 \<and> (0::real) \<le> 0
   \<and> py_trunc 27 \<le> int (length ex_window)
   \<and> length (py_slice (py_trunc 0) (py_trunc 27) ex_window) = 27
   \<and> ex_window ! 27 = Some 1
   \<and> exceed_count 0 27 ex_window = 11
   \<and> exceed_count 0 27 (ex_window[nat (py_trunc 27) := None]) = exceed_count 0 27 ex_window"
proof -
  have h: "py_trunc 27 \<le> int (length ex_window)"
    by (simp add: py_trunc_def ex_window_def ex_ramp_d_def)
  have z: "(0::real) \<le> 0" by simp
  note w = window_scan_in_range [OF ex_s_0030 ex_e_0030 z h, of None]
  have at: "ex_window ! 27 = Some 1"
    by (simp add: ex_window_def ex_ramp_d_def nth_append)
  have cnt: "exceed_count 0 27 ex_window = 11"
    by code_simp
  show ?thesis
    using w ex_s_0030 ex_e_0030 h at cnt by blast
qed

text \<open>
  C10 as stated fails outside that range. A kickoff at 00:00 gives \<open>start_index = -6\<close>, which
  Python counts from the end of the frame: on a full day of 288 buckets the slice \<open>[-6:21]\<close> is
  empty and nothing is scanned. On the 22-bucket ramp, whose buckets 7 to 17 exceed, the slice
  holds the 5 positions 16 to 20 and the count is 2, not the 11 of the positions below 21, so
  the endpoint is not a candidate. A kickoff at 23:00 gives \<open>end_index = 297\<close>, past a frame of
  288 buckets: 18 positions are scanned.
\<close>

theorem window_scan_counterexample:
  "s_idx ''00:00'' = Inr (- 6) \<and> e_idx ''00:00'' = Inr 21
   \<and> py_slice (py_trunc (- 6)) (py_trunc 21) (replicate 288 (Some (1::real))) = []
   \<and> exceed_count (- 6) 21 (replicate 288 (Some 1)) = 0
   \<and> ips_normalized (ex_ramp 2) = Inr [(2, ex_ramp_normalized)]
   \<and> ips_d ex_ramp_normalized = ex_ramp_d
   \<and> length (py_slice (py_trunc (- 6)) (py_trunc 21) ex_ramp_d) = 5
   \<and> exceed_count (- 6) 21 ex_ramp_d = 2
   \<and> length (filter exceeds (take 21 ex_ramp_d)) = 11
   \<and> model_one sort_desc_stable (ex_ramp 2) [''00:00''] = Inr [[]]
   \<and> s_idx ''23:00'' = Inr 270 \<and> e_idx ''23:00'' = Inr 297
   \<and> length (py_slice (py_trunc 270) (py_trunc 297) (replicate 288 (Some (1::real)))) = 18"
proof -
  have a: "py_slice (py_trunc (- 6)) (py_trunc 21) (replicate 288 (Some (1::real))) = []"
    by (simp add: py_slice_def slice_bound_def py_trunc_def)
  then have b: "exceed_count (- 6) 21 (replicate 288 (Some 1)) = 0"
    by (simp add: exceed_count_def)
  have c: "length (py_slice (py_trunc (- 6)) (py_trunc 21) ex_ramp_d) = 5"
    by (simp add: py_slice_def slice_bound_def py_trunc_def ex_ramp_d_def)
  have d: "length (filter exceeds (take 21 ex_ramp_d)) = 11"
    by code_simp
  have srt: "sort_desc_stable ([] :: (nat \<times> nat) list) = []"
    by (simp add: sort_desc_stable_def)
  have m: "model_one sort_desc_stable (ex_ramp 2) [''00:00''] = Inr [[]]"
    by (simp add: model_one_def ex_ramp_single_normalized ex_ramp_ips_d ex_s_0000 ex_e_0000
        ip_pirate_list_def ranked_counts_def exceed_counts_def ex_ramp_count_0000 srt)
  have f: "length (py_slice (py_trunc 270) (py_trunc 297) (replicate 288 (Some (1::real)))) = 18"
    by (simp add: py_slice_def slice_bound_def py_trunc_def)
  show ?thesis
    using ex_s_0000 ex_e_0000 a b ex_ramp_single_normalized ex_ramp_ips_d c ex_ramp_count_0000 d m
      ex_s_2300 ex_e_2300 f
    by blast
qed







section \<open>The claims about the traffic script\<close>

text \<open>
  C1. Every row of the processed frame, and every row of the output frame, has its timestamp
  in \<open>[kickoff, kickoff + 110 min)\<close> and satisfies
  \<open>piracy_gigabits = max (gigabits - noise_gigabits) 0\<close>, \<open>gbps = gigabits / 300\<close> and
  \<open>piracy_gbps = piracy_gigabits / 300\<close>; so \<open>piracy_gigabits\<close> is never negative, also when the
  noise is above the traffic. In the output frame, which drops the noise column, the noise is
  the endpoint's pre-match sum divided by 12. With gigabits 5 and noise 2 the row holds 3,
  5/300 and 3/300.
\<close>

theorem attribution_formulas:
  "(\<forall>p\<in>set (processed_ip_traffic_df ko rows).
       ko \<le> p_timestamp p \<and> p_timestamp p < ko + minutes 110
       \<and> p_piracy_gigabits p = max (p_gigabits p - p_noise_gigabits p) 0
       \<and> p_gbps p = p_gigabits p / 300
       \<and> p_piracy_gbps p = p_piracy_gigabits p / 300
       \<and> 0 \<le> p_piracy_gigabits p)
   \<and> (\<forall>out\<in>set (construct_output_df srt ko season gw rows).
       ko \<le> o_timestamp out \<and> o_timestamp out < ko + minutes 110
       \<and> o_gigabits out
           = sum_list (map gigabits_or_0
               (filter (\<lambda>r. in_ip r = o_ip out \<and> in_timestamp r = o_timestamp out) rows))
       \<and> o_piracy_gigabits out = max (o_gigabits out - raw_noise_sum ko rows (o_ip out) / 12) 0
       \<and> o_gbps out = o_gigabits out / 300
       \<and> o_piracy_gbps out = o_piracy_gigabits out / 300
       \<and> 0 \<le> o_piracy_gigabits out)"
proof -
  have first: "ko \<le> p_timestamp p \<and> p_timestamp p < ko + minutes 110
       \<and> p_piracy_gigabits p = max (p_gigabits p - p_noise_gigabits p) 0
       \<and> p_gbps p = p_gigabits p / 300
       \<and> p_piracy_gbps p = p_piracy_gigabits p / 300
       \<and> 0 \<le> p_piracy_gigabits p"
    if p: "p \<in> set (processed_ip_traffic_df ko rows)" for p
    using processed_row_fields(1,4,5,6) [OF p] by (simp add: in_match_window_def)
  have second: "ko \<le> o_timestamp out \<and> o_timestamp out < ko + minutes 110
       \<and> o_gigabits out
           = sum_list (map gigabits_or_0
               (filter (\<lambda>r. in_ip r = o_ip out \<and> in_timestamp r = o_timestamp out) rows))
       \<and> o_piracy_gigabits out = max (o_gigabits out - raw_noise_sum ko rows (o_ip out) / 12) 0
       \<and> o_gbps out = o_gigabits out / 300
       \<and> o_piracy_gbps out = o_piracy_gigabits out / 300
       \<and> 0 \<le> o_piracy_gigabits out"
    if mem: "out \<in> set (construct_output_df srt ko season gw rows)" for out
  proof -
    obtain b p where bp: "p \<in> set (processed_ip_traffic_df ko rows)" "p_ip p = b_ip b"
      "out = join_rows b p"
      using output_row_origin [OF mem] by blast
    show ?thesis
      using processed_row_fields [OF bp(1)] bp(2)
      by (simp add: bp(3) join_rows_def in_match_window_def)
  qed
  show ?thesis
    using first second by blast
qed

theorem attribution_formulas_witness:
  "processed_ip_traffic_df 0 ex_attr
     = [\<lparr>p_ip = 2, p_timestamp = 0, p_gigabits = 5, p_noise_gigabits = 2, p_piracy_gigabits = 3,
         p_gbps = 5 / 300, p_piracy_gbps = 3 / 300\<rparr>,
        \<lparr>p_ip = 3, p_timestamp = minutes 5, p_gigabits = 2, p_noise_gigabits = 5,
         p_piracy_gigabits = 0, p_gbps = 2 / 300, p_piracy_gbps = 0\<rparr>]
   \<and> map (\<lambda>out. (o_ip out, o_gigabits out, o_piracy_gigabits out, o_gbps out, o_piracy_gbps out))
        (construct_output_df sort_asn_stable 0 ''2020/21'' 31 ex_attr)
       = [(3, 2, 0, 2 / 300, 0), (2, 5, 3, 5 / 300, 3 / 300)]
   \<and> max (5 - raw_noise_sum 0 ex_attr 2 / 12) 0 = 3
   \<and> max (2 - raw_noise_sum 0 ex_attr 3 / 12) 0 = 0"
proof -
  note w = attribution_formulas [of 0 ex_attr sort_asn_stable "''2020/21''" 31]
  let ?o2 = "\<lparr>o_ip = 2, o_asn = Some 64500, o_as_name = Some ''AS-TWO'', o_analyse = Some True,
         o_vpn = Some False, o_vpn_name = None, o_season = ''2020/21'', o_game_week = 31,
         o_ko_timestamp = 0, o_timestamp = 0, o_gigabits = 5, o_piracy_gigabits = 3,
         o_gbps = 5 / 300, o_piracy_gbps = 3 / 300\<rparr> :: nat output_row"
  let ?o3 = "\<lparr>o_ip = 3, o_asn = None, o_as_name = None, o_analyse = Some True, o_vpn = Some False,
         o_vpn_name = None, o_season = ''2020/21'', o_game_week = 31, o_ko_timestamp = 0,
         o_timestamp = minutes 5, o_gigabits = 2, o_piracy_gigabits = 0, o_gbps = 2 / 300,
         o_piracy_gbps = 0\<rparr> :: nat output_row"
  have in2: "?o2 \<in> set (construct_output_df sort_asn_stable 0 ''2020/21'' 31 ex_attr)"
    and in3: "?o3 \<in> set (construct_output_df sort_asn_stable 0 ''2020/21'' 31 ex_attr)"
    by (simp_all add: ex_attr_output)
  have "o_piracy_gigabits ?o2 = max (o_gigabits ?o2 - raw_noise_sum 0 ex_attr (o_ip ?o2) / 12) 0"
    using w in2 by blast
  then have a: "max (5 - raw_noise_sum 0 ex_attr 2 / 12) 0 = 3"
    by simp
  have "o_piracy_gigabits ?o3 = max (o_gigabits ?o3 - raw_noise_sum 0 ex_attr (o_ip ?o3) / 12) 0"
    using w in3 by blast
  then have b: "max (2 - raw_noise_sum 0 ex_attr 3 / 12) 0 = 0"
    by simp
  have c: "map (\<lambda>out. (o_ip out, o_gigabits out, o_piracy_gigabits out, o_gbps out, o_piracy_gbps out))
        (construct_output_df sort_asn_stable 0 ''2020/21'' 31 ex_attr)
       = [(3, 2, 0, 2 / 300, 0), (2, 5, 3, 5 / 300, 3 / 300)]"
    by (simp add: ex_attr_output)
  show ?thesis
    using ex_attr_processed a b c by blast
qed

text \<open>
  C4. The noise of an endpoint is the sum of the gigabits of its input rows with timestamp in
  \<open>[kickoff - 90 min, kickoff - 30 min)\<close>, divided by 12 whatever the number of such rows: this
  is the value in \<open>noise_df\<close>, the value joined to every in-match row, and it is 0 for an
  endpoint without a row in that window, which has no entry in \<open>noise_df\<close>. Twelve samples
  10, 0, ..., 0 give 10/12.
\<close>

theorem noise_baseline_fixed_denominator:
  "(in_noise_window ko t \<longleftrightarrow> ko - minutes 90 \<le> t \<and> t < ko - minutes 30)
   \<and> raw_noise_sum ko rows i
       = sum_list (map gigabits_or_0
           (filter (\<lambda>r. in_ip r = i \<and> in_noise_window ko (in_timestamp r)) rows))
   \<and> (\<forall>(j, n)\<in>set (noise_df ko rows). n = raw_noise_sum ko rows j / 12)
   \<and> noise_gigabits (noise_df ko rows) i = raw_noise_sum ko rows i / 12
   \<and> (\<forall>p\<in>set (processed_ip_traffic_df ko rows).
         p_noise_gigabits p = raw_noise_sum ko rows (p_ip p) / 12)
   \<and> ((\<forall>r\<in>set rows. in_ip r = i \<longrightarrow> \<not> in_noise_window ko (in_timestamp r)) \<longrightarrow>
         i \<notin> fst ` set (noise_df ko rows) \<and> noise_gigabits (noise_df ko rows) i = 0)"
proof -
  have a: "in_noise_window ko t \<longleftrightarrow> ko - minutes 90 \<le> t \<and> t < ko - minutes 30"
    by (simp add: in_noise_window_def minutes_def)
  have b: "\<forall>(j, n)\<in>set (noise_df ko rows). n = raw_noise_sum ko rows j / 12"
    using noise_df_entry by blast
  have c: "\<forall>p\<in>set (processed_ip_traffic_df ko rows).
         p_noise_gigabits p = raw_noise_sum ko rows (p_ip p) / 12"
    using processed_row_fields(3) by blast
  have d: "(\<forall>r\<in>set rows. in_ip r = i \<longrightarrow> \<not> in_noise_window ko (in_timestamp r)) \<longrightarrow>
         i \<notin> fst ` set (noise_df ko rows) \<and> noise_gigabits (noise_df ko rows) i = 0"
    using noise_df_keys_have_samples [of i ko rows] raw_noise_sum_empty [of rows i ko]
    by (auto simp: noise_gigabits_noise_df)
  show ?thesis
    using a b c d by (simp add: raw_noise_sum_def noise_gigabits_noise_df)
qed

theorem noise_baseline_fixed_denominator_witness:
  "noise_df 0 ex_quiet = [(2, 10 / 12), (4, 1)]
   \<and> raw_noise_sum 0 ex_quiet 2 = 10
   \<and> noise_gigabits (noise_df 0 ex_quiet) 2 = 10 / 12
   \<and> raw_noise_sum 0 ex_quiet 4 = 12
   \<and> noise_gigabits (noise_df 0 ex_quiet) 4 = 1
   \<and> 3 \<notin> fst ` set (noise_df 0 ex_quiet)
   \<and> noise_gigabits (noise_df 0 ex_quiet) 3 = 0
   \<and> map (\<lambda>p. (p_ip p, p_noise_gigabits p)) (processed_ip_traffic_df 0 ex_quiet)
       = [(2, 10 / 12), (3, 0), (4, 1)]"
proof -
  note w2 = noise_baseline_fixed_denominator [of 0 0 ex_quiet 2]
  note w3 = noise_baseline_fixed_denominator [of 0 0 ex_quiet 3]
  note w4 = noise_baseline_fixed_denominator [of 0 0 ex_quiet 4]
  have n2: "noise_gigabits (noise_df 0 ex_quiet) 2 = 10 / 12"
    using w2 ex_quiet_raw(1) by simp
  have n4: "noise_gigabits (noise_df 0 ex_quiet) 4 = 1"
    using w4 ex_quiet_raw(3) by simp
  have none: "\<forall>r\<in>set ex_quiet. in_ip r = 3 \<longrightarrow> \<not> in_noise_window 0 (in_timestamp r)"
    by (simp add: ex_quiet_def ex_row_def in_noise_window_def minutes_def)
  have n3: "3 \<notin> fst ` set (noise_df 0 ex_quiet) \<and> noise_gigabits (noise_df 0 ex_quiet) 3 = 0"
    using w3 none by blast
  show ?thesis
    using ex_quiet_noise ex_quiet_raw(1,3) n2 n4 n3 ex_quiet_processed by blast
qed

text \<open>
  C9, as the code has it. For every sort by \<open>asn\<close>, the base frame holds exactly one row for
  every endpoint of the input, and that row is one of the endpoint's input rows; when one of
  the endpoint's rows has an \<open>asn\<close>, the kept row has one, and it is the largest \<open>asn\<close> of the
  endpoint's rows. The \<open>as_name\<close> is the kept row's own.
\<close>

theorem metadata_canonicalisation:
  assumes "sorts_by_asn srt"
  shows "distinct (map b_ip (base_df srt ko season gw rows))
       \<and> b_ip ` set (base_df srt ko season gw rows) = in_ip ` set rows
       \<and> (\<forall>b\<in>set (base_df srt ko season gw rows).
             \<exists>r\<in>set rows. b_ip b = in_ip r \<and> b_asn b = in_asn r \<and> b_as_name b = in_as_name r
               \<and> b_analyse b = in_analyse r \<and> b_vpn b = in_vpn r
               \<and> b_vpn_name b = in_vpn_name r)
       \<and> (\<forall>b\<in>set (base_df srt ko season gw rows).
             (\<exists>q\<in>set rows. in_ip q = b_ip b \<and> in_asn q \<noteq> None) \<longrightarrow> b_asn b \<noteq> None)
       \<and> (\<forall>b\<in>set (base_df srt ko season gw rows).
             \<forall>q\<in>set rows. \<forall>a. in_ip q = b_ip b \<and> in_asn q = Some a \<longrightarrow>
               (\<exists>a'. b_asn b = Some a' \<and> a \<le> a'))"
proof -
  let ?base = "base_df srt ko season gw rows"
  have origin: "\<forall>b\<in>set ?base.
             \<exists>r\<in>set rows. b_ip b = in_ip r \<and> b_asn b = in_asn r \<and> b_as_name b = in_as_name r
               \<and> b_analyse b = in_analyse r \<and> b_vpn b = in_vpn r
               \<and> b_vpn_name b = in_vpn_name r"
    using base_df_row_origin(1) [OF assms] by blast
  have prefers: "\<forall>b\<in>set ?base.
             (\<exists>q\<in>set rows. in_ip q = b_ip b \<and> in_asn q \<noteq> None) \<longrightarrow> b_asn b \<noteq> None"
    using base_df_prefers_asn [OF assms] by blast
  have largest: "\<exists>a'. b_asn b = Some a' \<and> a \<le> a'"
    if b: "b \<in> set ?base" and q: "q \<in> set rows" "in_ip q = b_ip b" "in_asn q = Some a"
    for b q a
  proof -
    let ?nn = "srt (filter (\<lambda>r. in_asn r \<noteq> None) rows)"
    obtain r where r: "r \<in> set (drop_duplicates_last (sort_values_asn srt rows))"
      "b_ip b = in_ip r" "b_asn b = in_asn r"
      using b by (auto simp: base_df_def)
    have nn: "set ?nn = {r \<in> set rows. in_asn r \<noteq> None}"
      by (simp add: sorts_by_asn_set [OF assms])
    have qn: "q \<in> set ?nn" using q nn by simp
    then have "in_ip r \<in> in_ip ` set ?nn"
      using q(2) r(2) by (metis imageI)
    then have rk: "r \<in> set (drop_duplicates_last ?nn)"
      using r(1) unfolding sort_values_asn_def drop_duplicates_last_append by auto
    have "sorted (map asn_key ?nn)"
      using assms by (simp add: sorts_by_asn_def)
    then have le: "asn_key q \<le> asn_key r"
      using rk qn by (rule kept_row_largest_asn) (simp add: q(2) r(2))
    have "r \<in> set ?nn" using rk drop_duplicates_last_subset by blast
    then obtain a' where a': "in_asn r = Some a'" using nn by auto
    then show ?thesis
      using le q(3) by (simp add: r(3) asn_key_def)
  qed
  show ?thesis
    using base_df_keys [OF assms, of ko season gw rows] origin prefers largest by blast
qed

theorem metadata_canonicalisation_witness:
  "sorts_by_asn (sort_asn_stable :: nat input_row list \<Rightarrow> _)
   \<and> in_ip (ex_meta ! 1) = 2 \<and> in_asn (ex_meta ! 1) = Some 64500
   \<and> map (\<lambda>b. (b_ip b, b_asn b)) (base_df sort_asn_stable 0 ''2020/21'' 31 ex_meta)
       = [(3, None), (2, Some 64500)]
   \<and> distinct (map b_ip (base_df sort_asn_stable 0 ''2020/21'' 31 ex_meta))
   \<and> b_ip ` set (base_df sort_asn_stable 0 ''2020/21'' 31 ex_meta) = in_ip ` set ex_meta"
proof -
  note w = metadata_canonicalisation [OF sorts_by_asn_stable, of 0 "''2020/21''" 31 ex_meta]
  have q: "in_ip (ex_meta ! 1) = 2 \<and> in_asn (ex_meta ! 1) = Some 64500"
    by (simp add: ex_meta_def ex_row_def)
  have m: "map (\<lambda>b. (b_ip b, b_asn b)) (base_df sort_asn_stable 0 ''2020/21'' 31 ex_meta)
       = [(3, None), (2, Some 64500)]"
    by (simp add: ex_meta_base)
  show ?thesis
    using w sorts_by_asn_stable q m by blast
qed

text \<open>
  C9 as stated also promises a non-null \<open>as_name\<close> whenever the endpoint has one. The rows are
  sorted by \<open>asn\<close> alone: endpoint 2 has a row with an \<open>as_name\<close> and no \<open>asn\<close>, and a row with an
  \<open>asn\<close> and no \<open>as_name\<close>; the second is kept, and its \<open>as_name\<close> is null.
\<close>

theorem metadata_as_name_counterexample:
  "in_ip (ex_meta ! 0) = 2 \<and> in_as_name (ex_meta ! 0) = Some ''AS-TWO''
   \<and> base_df sort_asn_stable 0 ''2020/21'' 31 ex_meta
       = [\<lparr>b_ip = 3, b_asn = None, b_as_name = None, b_analyse = Some True, b_vpn = Some False,
           b_vpn_name = None, b_season = ''2020/21'', b_game_week = 31, b_ko_timestamp = 0\<rparr>,
          \<lparr>b_ip = 2, b_asn = Some 64500, b_as_name = None, b_analyse = Some True,
           b_vpn = Some False, b_vpn_name = None, b_season = ''2020/21'', b_game_week = 31,
           b_ko_timestamp = 0\<rparr>]"
proof -
  have "in_ip (ex_meta ! 0) = 2 \<and> in_as_name (ex_meta ! 0) = Some ''AS-TWO''"
    by (simp add: ex_meta_def ex_row_def)
  then show ?thesis
    using ex_meta_base by blast
qed



end
